theory Spec2Isabelle
  imports Complex_Main "HOL-Library.Word" "HOL-Library.Signed_Division"
begin

section \<open>Common data: errors, entries\<close>

text \<open>
  A Go function of this library either returns normally, returns a non-nil \<open>error\<close>
  value, or stops with a run-time panic. \<open>Err\<close> is a returned error value,
  \<open>Recovered\<close> the error value made from a recovered panic, \<open>Panic\<close> a
  run-time panic (index out of range, nil dereference, division by zero, send on a closed
  channel) and \<open>Blocked\<close> a goroutine that can make no further step in a sequential run
  (a send on a full channel).
\<close>

datatype error = Err string | Recovered string | Panic string | Blocked

text \<open>\<open>time.Time\<close> instants are integers (nanoseconds); \<open>t.Before(u)\<close> is \<open>t < u\<close>.\<close>

type_synonym time = int

definition Before :: "time \<Rightarrow> time \<Rightarrow> bool" where
  "Before t u = (t < u)"

record ('k, 'v) Entry =
  Key :: 'k
  Value :: 'v

text \<open>\<open>CacheEntry\<close> embeds \<open>Entry\<close>; the embedded struct is the field \<open>Entry\<close>.\<close>

record ('k, 'v) CacheEntry =
  Entry :: "('k, 'v) Entry"
  ExpiresAt :: time
  NegativeCache :: bool

section \<open>Package iterutil\<close>

text \<open>
  An \<open>iter.Seq[V]\<close> built by \<open>slices.Values\<close> and consumed by \<open>slices.Collect\<close> is the
  list of the values it yields; the consumer never stops early, so every \<open>yield\<close>
  returns true.
\<close>



text \<open>
  \<open>Intersection\<close> and \<open>Union\<close>: \<open>seen\<close> is a \<open>map[V]int\<close>; reading a missing key gives
  0, so \<open>seen[v]++\<close> stores 1 for a new key. The inner loop runs over one iterator and
  yields \<open>v\<close> when its counter reaches \<open>len(iters)\<close> (\<open>Intersection\<close>) or 1
  (\<open>Union\<close>); the outer loop runs over the iterators with the same map. A counter
  is bounded by the number of values read, so it is an unbounded integer here.
\<close>

definition count_of :: "('v \<rightharpoonup> int) \<Rightarrow> 'v \<Rightarrow> int" where
  "count_of seen v = (case seen v of None \<Rightarrow> 0 | Some c \<Rightarrow> c)"

fun Intersection_seq :: "int \<Rightarrow> ('v \<rightharpoonup> int) \<Rightarrow> 'v list \<Rightarrow> 'v list \<times> ('v \<rightharpoonup> int)" where
  "Intersection_seq n seen [] = ([], seen)"
| "Intersection_seq n seen (v # vs) =
     (let seen' = seen(v \<mapsto> count_of seen v + 1);
          (out, seen'') = Intersection_seq n seen' vs
      in (if count_of seen' v = n then v # out else out, seen''))"

fun Intersection_loop :: "int \<Rightarrow> ('v \<rightharpoonup> int) \<Rightarrow> 'v list list \<Rightarrow> 'v list" where
  "Intersection_loop n seen [] = []"
| "Intersection_loop n seen (seq # iters) =
     (let (out, seen') = Intersection_seq n seen seq
      in out @ Intersection_loop n seen' iters)"

definition Intersection :: "'v list list \<Rightarrow> 'v list" where
  "Intersection iters = Intersection_loop (int (length iters)) Map.empty iters"




section \<open>Package index: composite indexes\<close>

text \<open>
  \<open>MaybeKey\<close> is a key with the flag \<open>Empty\<close> that says the key is absent; \<open>Keys\<close>
  holds one for each side. \<open>NewKeys\<close> builds the key with both sides present.
\<close>

record 'k MaybeKey =
  mk_Key :: 'k
  Empty :: bool

record ('l, 'r) Keys =
  Left :: "'l MaybeKey"
  Right :: "'r MaybeKey"

definition NewKeys :: "'l \<Rightarrow> 'r \<Rightarrow> ('l, 'r) Keys" where
  "NewKeys left right =
     \<lparr>Left = \<lparr>mk_Key = left, Empty = False\<rparr>, Right = \<lparr>mk_Key = right, Empty = False\<rparr>\<rparr>"


record ('l, 'r, 'pk) AndIndex =
  and_Left :: "'l \<Rightarrow> error + 'pk list"
  and_Right :: "'r \<Rightarrow> error + 'pk list"

text \<open>
  Both \<open>Get\<close> methods start with the same two blocks, one for each side: the side's
  result stays nil when the key of the side is \<open>Empty\<close>, and is what the underlying
  index answers otherwise. \<open>side_Get\<close> is one such block.
\<close>

definition side_Get :: "('k \<Rightarrow> error + 'pk list) \<Rightarrow> 'k MaybeKey \<Rightarrow> error + 'pk list" where
  "side_Get get k = (if \<not> Empty k then get (mk_Key k) else Inr [])"


definition AndIndex_Get :: "('l, 'r, 'pk) AndIndex \<Rightarrow> ('l, 'r) Keys \<Rightarrow> error + 'pk list" where
  "AndIndex_Get i key =
     (case side_Get (and_Left i) (Left key) of
        Inl err \<Rightarrow> Inl err
      | Inr leftPks \<Rightarrow>
          (case side_Get (and_Right i) (Right key) of
             Inl err \<Rightarrow> Inl err
           | Inr rightPks \<Rightarrow>
               (let total = length leftPks + length rightPks
                in if total = 0 then Inr []
                   else if total = length leftPks
                        then (if Empty (Right key) then Inr leftPks else Inr [])
                   else if total = length rightPks
                        then (if Empty (Left key) then Inr rightPks else Inr [])
                   else Inr (Intersection [leftPks, rightPks]))))"

section \<open>Package memstorage\<close>

text \<open>
  Go's \<open>int\<close> is a 64-bit two's complement integer. Its \<open>%\<close> truncates towards zero: the
  remainder has the sign of the dividend.
\<close>

definition go_rem :: "64 word \<Rightarrow> 64 word \<Rightarrow> 64 word" where
  "go_rem x y = word_of_int (sint x smod sint y)"

text \<open>
  The options of a storage. \<open>clock.Now()\<close> is an input of each operation below (the reading
  \<open>now\<close> the clock returns in that call); \<open>zeroValue\<close> is the zero value of the type \<open>V\<close>.
\<close>

record ('k, 'v) options =
  hashKey :: "'k \<Rightarrow> 64 word"
  bucketsSize :: int
  cloner :: "'v \<Rightarrow> 'v"
  zeroValue :: 'v

type_synonym ('k, 'v) bucket = "'k \<rightharpoonup> ('k, 'v) CacheEntry"

record ('k, 'v) distributedStorage =
  buckets :: "('k, 'v) bucket list"
  options :: "('k, 'v) options"

text \<open>The single-bucket \<open>storage\<close>: the embedded bucket's map and the options.\<close>

record ('k, 'v) storage =
  bucket :: "('k, 'v) bucket"
  opts :: "('k, 'v) options"

datatype ('k, 'v) CacheStorageImpl =
  SingleBucket "('k, 'v) storage"
| Sharded "('k, 'v) distributedStorage"

definition NewInMemoryStorage :: "('k, 'v) options \<Rightarrow> error + ('k, 'v) CacheStorageImpl" where
  "NewInMemoryStorage os =
     (if bucketsSize os = 1 then Inr (SingleBucket \<lparr>bucket = Map.empty, opts = os\<rparr>)
      else if bucketsSize os < 0 then Inl (Panic ''makeslice: len out of range'')
      else Inr (Sharded \<lparr>buckets = replicate (nat (bucketsSize os)) Map.empty, options = os\<rparr>))"

definition cloneCacheEntry :: "('v \<Rightarrow> 'v) \<Rightarrow> 'v \<Rightarrow> ('k, 'v) CacheEntry \<Rightarrow> ('k, 'v) CacheEntry" where
  "cloneCacheEntry cl zero v =
     (if NegativeCache v
      then \<lparr>Entry = \<lparr>Key = Key (Entry v), Value = zero\<rparr>,
            ExpiresAt = ExpiresAt v, NegativeCache = True\<rparr>
      else \<lparr>Entry = \<lparr>Key = Key (Entry v), Value = cl (Value (Entry v))\<rparr>,
            ExpiresAt = ExpiresAt v, NegativeCache = False\<rparr>)"

text \<open>
  \<open>resolveBucket\<close> returns the position of the bucket it selects. The division panics on
  an empty bucket list, the slice access on an index out of range.
\<close>

definition resolveBucket :: "('k, 'v) distributedStorage \<Rightarrow> 'k \<Rightarrow> error + nat" where
  "resolveBucket s key =
     (if length (buckets s) = 0 then Inl (Panic ''integer divide by zero'')
      else
        let index = go_rem (hashKey (options s) key) (word_of_nat (length (buckets s)));
            index = (if index <s 0 then index * (- 1) else index)
        in if 0 \<le>s index \<and> unat index < length (buckets s) then Inr (unat index)
           else Inl (Panic ''index out of range''))"

text \<open>
  \<open>resolveBuckets\<close>: the loop over the keys with the map \<open>indexes\<close>, the set \<open>seen\<close> and
  the list \<open>buckets\<close> of distinct indexes in order of first use.
\<close>

fun resolveBuckets_loop ::
  "('k, 'v) distributedStorage \<Rightarrow> ('k \<rightharpoonup> 64 word) \<Rightarrow> 64 word set \<Rightarrow> 64 word list \<Rightarrow> 'k list
     \<Rightarrow> error + ('k \<rightharpoonup> 64 word) \<times> 64 word list" where
  "resolveBuckets_loop s indexes seen bs [] = Inr (indexes, bs)"
| "resolveBuckets_loop s indexes seen bs (key # keys) =
     (if length (buckets s) = 0 then Inl (Panic ''integer divide by zero'')
      else
        let index = go_rem (hashKey (options s) key) (word_of_nat (length (buckets s)));
            index = (if index <s 0 then index * (- 1) else index)
        in resolveBuckets_loop s (indexes(key \<mapsto> index)) (insert index seen)
             (if index \<in> seen then bs else bs @ [index]) keys)"

definition resolveBuckets ::
  "('k, 'v) distributedStorage \<Rightarrow> 'k list \<Rightarrow> error + ('k \<rightharpoonup> 64 word) \<times> 64 word list" where
  "resolveBuckets s keys = resolveBuckets_loop s Map.empty {} [] keys"

text \<open>\<open>s.buckets[i]\<close> for an \<open>int\<close> \<open>i\<close>, with the bounds check of the slice access.\<close>

definition bucket_at :: "('k, 'v) bucket list \<Rightarrow> 64 word \<Rightarrow> error + ('k, 'v) bucket" where
  "bucket_at bs i =
     (if 0 \<le>s i \<and> unat i < length bs then Inr (bs ! unat i)
      else Inl (Panic ''index out of range''))"

text \<open>\<open>indexes[key]\<close>: a missing key reads as 0.\<close>

definition index_of :: "('k \<rightharpoonup> 64 word) \<Rightarrow> 'k \<Rightarrow> 64 word" where
  "index_of indexes key = (case indexes key of None \<Rightarrow> 0 | Some i \<Rightarrow> i)"

text \<open>
  The operations of \<open>distributedStorage\<close>. The read/write locks of the buckets have no
  effect in a sequential run and are left out; the lock loops of \<open>GetMulti\<close> and
  \<open>SetMulti\<close> visit the same bucket positions as the loops over the keys.
\<close>

definition d_Get ::
  "('k, 'v) distributedStorage \<Rightarrow> time \<Rightarrow> 'k \<Rightarrow> error + ('k, 'v) CacheEntry option" where
  "d_Get s now key =
     (case resolveBucket s key of
        Inl e \<Rightarrow> Inl e
      | Inr b \<Rightarrow>
          (case (buckets s ! b) key of
             Some v \<Rightarrow>
               if Before now (ExpiresAt v)
               then Inr (Some (cloneCacheEntry (cloner (options s)) (zeroValue (options s)) v))
               else Inr None
           | None \<Rightarrow> Inr None))"

fun d_GetMulti_loop ::
  "('k, 'v) distributedStorage \<Rightarrow> time \<Rightarrow> ('k \<rightharpoonup> 64 word) \<Rightarrow> 'k list
     \<Rightarrow> error + ('k, 'v) CacheEntry option list" where
  "d_GetMulti_loop s now indexes [] = Inr []"
| "d_GetMulti_loop s now indexes (key # keys) =
     (case bucket_at (buckets s) (index_of indexes key) of
        Inl e \<Rightarrow> Inl e
      | Inr b \<Rightarrow>
          (let r = (case b key of
                      Some v \<Rightarrow>
                        if Before now (ExpiresAt v)
                        then Some (cloneCacheEntry (cloner (options s)) (zeroValue (options s)) v)
                        else None
                    | None \<Rightarrow> None)
           in case d_GetMulti_loop s now indexes keys of
                Inl e \<Rightarrow> Inl e
              | Inr rs \<Rightarrow> Inr (r # rs)))"

definition d_GetMulti ::
  "('k, 'v) distributedStorage \<Rightarrow> time \<Rightarrow> 'k list \<Rightarrow> error + ('k, 'v) CacheEntry option list" where
  "d_GetMulti s now keys =
     (case resolveBuckets s keys of
        Inl e \<Rightarrow> Inl e
      | Inr (indexes, bs) \<Rightarrow> d_GetMulti_loop s now indexes keys)"

text \<open>\<open>Set\<close> takes a pointer; \<open>entry.Key\<close> on a nil pointer panics.\<close>

definition d_Set ::
  "('k, 'v) distributedStorage \<Rightarrow> ('k, 'v) CacheEntry option
     \<Rightarrow> error + ('k, 'v) distributedStorage" where
  "d_Set s entry =
     (case entry of
        None \<Rightarrow> Inl (Panic ''nil pointer dereference'')
      | Some e \<Rightarrow>
          (case resolveBucket s (Key (Entry e)) of
             Inl err \<Rightarrow> Inl err
           | Inr b \<Rightarrow>
               Inr (s\<lparr>buckets := (buckets s)[b := (buckets s ! b)(Key (Entry e) \<mapsto>
                      cloneCacheEntry (cloner (options s)) (zeroValue (options s)) e)]\<rparr>)))"

fun d_SetMulti_loop ::
  "('k, 'v) distributedStorage \<Rightarrow> ('k \<rightharpoonup> 64 word) \<Rightarrow> ('k, 'v) CacheEntry option list
     \<Rightarrow> error + ('k, 'v) distributedStorage" where
  "d_SetMulti_loop s indexes [] = Inr s"
| "d_SetMulti_loop s indexes (None # entries) = d_SetMulti_loop s indexes entries"
| "d_SetMulti_loop s indexes (Some e # entries) =
     (case bucket_at (buckets s) (index_of indexes (Key (Entry e))) of
        Inl err \<Rightarrow> Inl err
      | Inr b \<Rightarrow>
          d_SetMulti_loop
            (s\<lparr>buckets := (buckets s)[unat (index_of indexes (Key (Entry e))) :=
                  b(Key (Entry e) \<mapsto>
                    cloneCacheEntry (cloner (options s)) (zeroValue (options s)) e)]\<rparr>)
            indexes entries)"

definition entry_keys :: "('k, 'v) CacheEntry option list \<Rightarrow> 'k list" where
  "entry_keys entries = map (\<lambda>e. Key (Entry e)) (List.map_filter (\<lambda>e. e) entries)"

definition d_SetMulti ::
  "('k, 'v) distributedStorage \<Rightarrow> ('k, 'v) CacheEntry option list
     \<Rightarrow> error + ('k, 'v) distributedStorage" where
  "d_SetMulti s entries =
     (case resolveBuckets s (entry_keys entries) of
        Inl e \<Rightarrow> Inl e
      | Inr (indexes, bs) \<Rightarrow> d_SetMulti_loop s indexes entries)"

text \<open>The operations of the single-bucket \<open>storage\<close>.\<close>

definition s_Get :: "('k, 'v) storage \<Rightarrow> time \<Rightarrow> 'k \<Rightarrow> error + ('k, 'v) CacheEntry option" where
  "s_Get s now key =
     (case bucket s key of
        Some v \<Rightarrow>
          if Before now (ExpiresAt v)
          then Inr (Some (cloneCacheEntry (cloner (opts s)) (zeroValue (opts s)) v))
          else Inr None
      | None \<Rightarrow> Inr None)"

fun s_GetMulti_loop ::
  "('k, 'v) storage \<Rightarrow> time \<Rightarrow> 'k list \<Rightarrow> ('k, 'v) CacheEntry option list" where
  "s_GetMulti_loop s now [] = []"
| "s_GetMulti_loop s now (key # keys) =
     (case bucket s key of
        Some v \<Rightarrow>
          if Before now (ExpiresAt v)
          then Some (cloneCacheEntry (cloner (opts s)) (zeroValue (opts s)) v)
          else None
      | None \<Rightarrow> None) # s_GetMulti_loop s now keys"

definition s_GetMulti ::
  "('k, 'v) storage \<Rightarrow> time \<Rightarrow> 'k list \<Rightarrow> error + ('k, 'v) CacheEntry option list" where
  "s_GetMulti s now keys = Inr (s_GetMulti_loop s now keys)"

definition s_Set :: "('k, 'v) storage \<Rightarrow> ('k, 'v) CacheEntry option \<Rightarrow> error + ('k, 'v) storage" where
  "s_Set s entry =
     (case entry of
        None \<Rightarrow> Inl (Panic ''nil pointer dereference'')
      | Some e \<Rightarrow>
          Inr (s\<lparr>bucket := (bucket s)(Key (Entry e) \<mapsto>
                 cloneCacheEntry (cloner (opts s)) (zeroValue (opts s)) e)\<rparr>))"

fun s_SetMulti_loop :: "('k, 'v) storage \<Rightarrow> ('k, 'v) CacheEntry option list \<Rightarrow> ('k, 'v) storage" where
  "s_SetMulti_loop s [] = s"
| "s_SetMulti_loop s (None # entries) = s_SetMulti_loop s entries"
| "s_SetMulti_loop s (Some e # entries) =
     s_SetMulti_loop
       (s\<lparr>bucket := (bucket s)(Key (Entry e) \<mapsto>
            cloneCacheEntry (cloner (opts s)) (zeroValue (opts s)) e)\<rparr>)
       entries"

definition s_SetMulti ::
  "('k, 'v) storage \<Rightarrow> ('k, 'v) CacheEntry option list \<Rightarrow> error + ('k, 'v) storage" where
  "s_SetMulti s entries = Inr (s_SetMulti_loop s entries)"

text \<open>
  A client of the \<open>CacheStorage\<close> interface sees a storage through its four methods. An
  operation carries the clock reading of its call; a run applies operations in turn and
  collects what each call returns. A panic leaves the maps as they were (every panic
  above precedes the first write of its call).
\<close>

datatype ('k, 'v) operation =
  OpGet 'k
| OpGetMulti "'k list"
| OpSet "('k, 'v) CacheEntry option"
| OpSetMulti "('k, 'v) CacheEntry option list"

datatype ('k, 'v) returned =
  RetGet "('k, 'v) CacheEntry option"
| RetGetMulti "('k, 'v) CacheEntry option list"
| RetSet
| RetSetMulti

fun d_apply ::
  "('k, 'v) distributedStorage \<Rightarrow> time \<times> ('k, 'v) operation
     \<Rightarrow> (error + ('k, 'v) returned) \<times> ('k, 'v) distributedStorage" where
  "d_apply s (now, OpGet key) =
     (case d_Get s now key of Inl e \<Rightarrow> (Inl e, s) | Inr r \<Rightarrow> (Inr (RetGet r), s))"
| "d_apply s (now, OpGetMulti keys) =
     (case d_GetMulti s now keys of Inl e \<Rightarrow> (Inl e, s) | Inr rs \<Rightarrow> (Inr (RetGetMulti rs), s))"
| "d_apply s (now, OpSet entry) =
     (case d_Set s entry of Inl e \<Rightarrow> (Inl e, s) | Inr s' \<Rightarrow> (Inr RetSet, s'))"
| "d_apply s (now, OpSetMulti entries) =
     (case d_SetMulti s entries of Inl e \<Rightarrow> (Inl e, s) | Inr s' \<Rightarrow> (Inr RetSetMulti, s'))"

fun s_apply ::
  "('k, 'v) storage \<Rightarrow> time \<times> ('k, 'v) operation
     \<Rightarrow> (error + ('k, 'v) returned) \<times> ('k, 'v) storage" where
  "s_apply s (now, OpGet key) =
     (case s_Get s now key of Inl e \<Rightarrow> (Inl e, s) | Inr r \<Rightarrow> (Inr (RetGet r), s))"
| "s_apply s (now, OpGetMulti keys) =
     (case s_GetMulti s now keys of Inl e \<Rightarrow> (Inl e, s) | Inr rs \<Rightarrow> (Inr (RetGetMulti rs), s))"
| "s_apply s (now, OpSet entry) =
     (case s_Set s entry of Inl e \<Rightarrow> (Inl e, s) | Inr s' \<Rightarrow> (Inr RetSet, s'))"
| "s_apply s (now, OpSetMulti entries) =
     (case s_SetMulti s entries of Inl e \<Rightarrow> (Inl e, s) | Inr s' \<Rightarrow> (Inr RetSetMulti, s'))"

fun d_run ::
  "('k, 'v) distributedStorage \<Rightarrow> (time \<times> ('k, 'v) operation) list
     \<Rightarrow> (error + ('k, 'v) returned) list" where
  "d_run s [] = []"
| "d_run s (x # xs) = (let (r, s') = d_apply s x in r # d_run s' xs)"

fun s_run ::
  "('k, 'v) storage \<Rightarrow> (time \<times> ('k, 'v) operation) list
     \<Rightarrow> (error + ('k, 'v) returned) list" where
  "s_run s [] = []"
| "s_run s (x # xs) = (let (r, s') = s_apply s x in r # s_run s' xs)"

section \<open>Package loadingcache: the loading cache\<close>

text \<open>
  \<open>Loader\<close> and \<open>Storage\<close> are interface values. A method of either is a function of its
  argument and of the state \<open>'s\<close> of everything behind the interface (the stored entries,
  the source, the clock), returning its result and the state after the call.
\<close>

record ('k, 'v, 's) SourceLoader =
  LoadAndStore :: "'k \<Rightarrow> 's \<Rightarrow> (error + ('k, 'v) Entry option) \<times> 's"
  LoadAndStoreMulti :: "'k list \<Rightarrow> 's \<Rightarrow> (error + ('k, 'v) Entry option list) \<times> 's"

record ('k, 'v, 's) CacheStorage =
  Get :: "'k \<Rightarrow> 's \<Rightarrow> (error + ('k, 'v) CacheEntry option) \<times> 's"
  GetMulti :: "'k list \<Rightarrow> 's \<Rightarrow> (error + ('k, 'v) CacheEntry option list) \<times> 's"

record ('k, 'v, 's) LoadingCache =
  Loader :: "('k, 'v, 's) SourceLoader"
  Storage :: "('k, 'v, 's) CacheStorage"

definition GetOrLoad ::
  "('k, 'v, 's) LoadingCache \<Rightarrow> 'k \<Rightarrow> 's \<Rightarrow> (error + ('k, 'v) Entry option) \<times> 's" where
  "GetOrLoad c key s =
     (case Get (Storage c) key s of
        (Inl err, s1) \<Rightarrow> (Inl err, s1)
      | (Inr (Some cacheEntry), s1) \<Rightarrow>
          if NegativeCache cacheEntry then (Inr None, s1)
          else (Inr (Some (Entry cacheEntry)), s1)
      | (Inr None, s1) \<Rightarrow> LoadAndStore (Loader c) key s1)"

text \<open>
  The first loop of \<open>GetOrLoadMulti\<close> over \<open>cacheEntries\<close>, at position \<open>i\<close>: a nil entry
  appends \<open>i\<close> to \<open>indexes\<close>, a non-negative entry is written to \<open>entries[i]\<close>.
\<close>

fun scan_entries ::
  "('k, 'v) CacheEntry option list \<Rightarrow> nat \<Rightarrow> ('k, 'v) Entry option list \<Rightarrow> nat list
     \<Rightarrow> error + ('k, 'v) Entry option list \<times> nat list" where
  "scan_entries [] i entries indexes = Inr (entries, indexes)"
| "scan_entries (None # rest) i entries indexes =
     scan_entries rest (i + 1) entries (indexes @ [i])"
| "scan_entries (Some entry # rest) i entries indexes =
     (if \<not> NegativeCache entry
      then (if i < length entries
            then scan_entries rest (i + 1) (entries[i := Some (Entry entry)]) indexes
            else Inl (Panic ''index out of range''))
      else scan_entries rest (i + 1) entries indexes)"

text \<open>The second loop: \<open>missing[i] = keys[j]\<close> for the \<open>i\<close>-th element \<open>j\<close> of \<open>indexes\<close>.\<close>

fun missing_keys :: "'k list \<Rightarrow> nat list \<Rightarrow> error + 'k list" where
  "missing_keys keys [] = Inr []"
| "missing_keys keys (j # js) =
     (if j < length keys
      then (case missing_keys keys js of Inl e \<Rightarrow> Inl e | Inr ks \<Rightarrow> Inr (keys ! j # ks))
      else Inl (Panic ''index out of range''))"

text \<open>The third loop: \<open>entries[j] = loaded[i]\<close>.\<close>

fun splice_loaded ::
  "nat list \<Rightarrow> nat \<Rightarrow> ('k, 'v) Entry option list \<Rightarrow> ('k, 'v) Entry option list
     \<Rightarrow> error + ('k, 'v) Entry option list" where
  "splice_loaded [] i loaded entries = Inr entries"
| "splice_loaded (j # js) i loaded entries =
     (if i < length loaded \<and> j < length entries
      then splice_loaded js (i + 1) loaded (entries[j := loaded ! i])
      else Inl (Panic ''index out of range''))"

definition GetOrLoadMulti ::
  "('k, 'v, 's) LoadingCache \<Rightarrow> 'k list \<Rightarrow> 's \<Rightarrow> (error + ('k, 'v) Entry option list) \<times> 's" where
  "GetOrLoadMulti cl keys s =
     (case GetMulti (Storage cl) keys s of
        (Inl err, s1) \<Rightarrow> (Inl err, s1)
      | (Inr cacheEntries, s1) \<Rightarrow>
          (case scan_entries cacheEntries 0 (replicate (length keys) None) [] of
             Inl e \<Rightarrow> (Inl e, s1)
           | Inr (entries, indexes) \<Rightarrow>
               if length indexes = 0 then (Inr entries, s1)
               else
                 (case missing_keys keys indexes of
                    Inl e \<Rightarrow> (Inl e, s1)
                  | Inr missing \<Rightarrow>
                      (case LoadAndStoreMulti (Loader cl) missing s1 of
                         (Inl err, s2) \<Rightarrow> (Inl err, s2)
                       | (Inr loaded, s2) \<Rightarrow>
                           (case splice_loaded indexes 0 loaded entries of
                              Inl e \<Rightarrow> (Inl e, s2)
                            | Inr entries' \<Rightarrow> (Inr entries', s2))))))"

text \<open>
  To speak of which loader calls a cache operation makes, the loader is wrapped so that
  each call appends its argument to a list of calls kept beside the state; the storage is
  lifted to the paired state unchanged.
\<close>

datatype 'k loader_call = CallLoadAndStore 'k | CallLoadAndStoreMulti "'k list"

definition traced ::
  "('a \<Rightarrow> 'c) \<Rightarrow> ('a \<Rightarrow> 's \<Rightarrow> 'r \<times> 's) \<Rightarrow> 'a \<Rightarrow> 's \<times> 'c list \<Rightarrow> 'r \<times> 's \<times> 'c list" where
  "traced tag f a = (\<lambda>(s, calls). let (r, s') = f a s in (r, (s', calls @ [tag a])))"

definition untraced ::
  "('a \<Rightarrow> 's \<Rightarrow> 'r \<times> 's) \<Rightarrow> 'a \<Rightarrow> 's \<times> 'c list \<Rightarrow> 'r \<times> 's \<times> 'c list" where
  "untraced f a = (\<lambda>(s, calls). let (r, s') = f a s in (r, (s', calls)))"

definition with_trace ::
  "('k, 'v, 's) LoadingCache \<Rightarrow> ('k, 'v, 's \<times> 'k loader_call list) LoadingCache" where
  "with_trace c =
     \<lparr>Loader = \<lparr>LoadAndStore = traced CallLoadAndStore (LoadAndStore (Loader c)),
                LoadAndStoreMulti = traced CallLoadAndStoreMulti (LoadAndStoreMulti (Loader c))\<rparr>,
      Storage = \<lparr>Get = untraced (Get (Storage c)),
                 GetMulti = untraced (GetMulti (Storage c))\<rparr>\<rparr>"

section \<open>Package singleflightloader: delivery to the waiters\<close>

text \<open>
  A value of \<open>either[error, *Entry]\<close>, and a channel of such values: its buffer, its
  capacity and whether it is closed. Channels live in a heap indexed by addresses; the
  waitlist of a key is a list of channel addresses.
\<close>

record ('k, 'v) either =
  L :: "error option"
  R :: "('k, 'v) Entry option"

record ('k, 'v) chan =
  buf :: "('k, 'v) either list"
  cap :: nat
  closed :: bool

type_synonym ('k, 'v) chans = "nat \<Rightarrow> ('k, 'v) chan"

record ('k, 'v) SingleFlightLoader =
  value_cloner :: "'v \<Rightarrow> 'v"
  waitlists :: "'k \<rightharpoonup> nat list"

text \<open>\<open>wl <- x\<close>: panics on a closed channel, cannot proceed on a full buffer.\<close>

definition chan_send :: "('k, 'v) chans \<Rightarrow> nat \<Rightarrow> ('k, 'v) either \<Rightarrow> error + ('k, 'v) chans" where
  "chan_send h c x =
     (if closed (h c) then Inl (Panic ''send on closed channel'')
      else if length (buf (h c)) < cap (h c) then Inr (h(c := (h c)\<lparr>buf := buf (h c) @ [x]\<rparr>))
      else Inl Blocked)"

definition chan_close :: "('k, 'v) chans \<Rightarrow> nat \<Rightarrow> error + ('k, 'v) chans" where
  "chan_close h c =
     (if closed (h c) then Inl (Panic ''close of closed channel'')
      else Inr (h(c := (h c)\<lparr>closed := True\<rparr>)))"

text \<open>\<open>l.waitlists[key]\<close>: a missing key reads as the nil slice.\<close>

definition waitlist_of :: "('k, 'v) SingleFlightLoader \<Rightarrow> 'k \<Rightarrow> nat list" where
  "waitlist_of l key = (case waitlists l key of None \<Rightarrow> [] | Some wl \<Rightarrow> wl)"

text \<open>The value sent to the waiter at position \<open>i\<close> of the waitlist.\<close>

definition delivered ::
  "('v \<Rightarrow> 'v) \<Rightarrow> ('k, 'v) CacheEntry option \<Rightarrow> nat \<Rightarrow> ('k, 'v) either" where
  "delivered cl cacheEntry i =
     (case cacheEntry of
        None \<Rightarrow> \<lparr>L = None, R = None\<rparr>
      | Some ce \<Rightarrow>
          if NegativeCache ce then \<lparr>L = None, R = None\<rparr>
          else
            let entry = Entry ce;
                entry = (if i \<noteq> 0 then entry\<lparr>Value := cl (Value entry)\<rparr> else entry)
            in \<lparr>L = None, R = Some entry\<rparr>)"

fun sendEntry_loop ::
  "('v \<Rightarrow> 'v) \<Rightarrow> ('k, 'v) CacheEntry option \<Rightarrow> nat \<Rightarrow> nat list \<Rightarrow> ('k, 'v) chans
     \<Rightarrow> error + ('k, 'v) chans" where
  "sendEntry_loop cl cacheEntry i [] h = Inr h"
| "sendEntry_loop cl cacheEntry i (wl # wls) h =
     (case chan_send h wl (delivered cl cacheEntry i) of
        Inl e \<Rightarrow> Inl e
      | Inr h1 \<Rightarrow>
          (case chan_close h1 wl of
             Inl e \<Rightarrow> Inl e
           | Inr h2 \<Rightarrow> sendEntry_loop cl cacheEntry (i + 1) wls h2))"

definition sendEntry ::
  "('k, 'v) SingleFlightLoader \<Rightarrow> ('k, 'v) chans \<Rightarrow> 'k \<Rightarrow> ('k, 'v) CacheEntry option
     \<Rightarrow> error + ('k, 'v) SingleFlightLoader \<times> ('k, 'v) chans" where
  "sendEntry l h key cacheEntry =
     (case sendEntry_loop (value_cloner l) cacheEntry 0 (waitlist_of l key) h of
        Inl e \<Rightarrow> Inl e
      | Inr h' \<Rightarrow> Inr (l\<lparr>waitlists := (waitlists l)(key \<mapsto> [])\<rparr>, h'))"

section \<open>Package panicutil and package omcindex\<close>

text \<open>
  What a call of a user function does: it returns a value, panics with a value, or calls
  \<open>runtime.Goexit\<close>. A call of the library completes by returning or by ending its
  goroutine.
\<close>

datatype 'a outcome = Returns 'a | Panics string | Goexits

datatype 'a completion = Returned 'a | Exited

text \<open>
  \<open>DoubleDeferSandwich.Invoke\<close>: the error \<open>f\<close> returned, the recovered panic as an error,
  or, after \<open>Goexit\<close>, the \<open>OnGoexit\<close> hook on the state \<open>'s\<close> and the end of the goroutine.
\<close>

definition Invoke ::
  "('s \<Rightarrow> 's) option \<Rightarrow> error option outcome \<Rightarrow> 's \<Rightarrow> error option completion \<times> 's" where
  "Invoke OnGoexit f s =
     (case f of
        Returns err \<Rightarrow> (Returned err, s)
      | Panics v \<Rightarrow> (Returned (Some (Recovered v)), s)
      | Goexits \<Rightarrow> (Exited, (case OnGoexit of None \<Rightarrow> s | Some hook \<Rightarrow> hook s)))"

text \<open>The state of an \<open>OnMemoryIndex\<close>: the flag \<open>goexit\<close> and the map \<open>m\<close> (nil at first).\<close>

record ('sk, 'pk) OnMemoryIndex =
  goexit :: bool
  snapshot :: "('sk \<rightharpoonup> 'pk list) option"

text \<open>
  \<open>Refresh\<close>, given what \<open>source.GetAll\<close> does in this call. The closure passed to
  \<open>Invoke\<close> assigns the local \<open>m\<close> and returns \<open>err\<close>.
\<close>

definition Refresh ::
  "(('sk \<rightharpoonup> 'pk list) option \<times> error option) outcome \<Rightarrow> ('sk, 'pk) OnMemoryIndex
     \<Rightarrow> error option completion \<times> ('sk, 'pk) OnMemoryIndex" where
  "Refresh getAll i =
     (let local_m = (case getAll of Returns (m0, err) \<Rightarrow> m0 | Panics v \<Rightarrow> None | Goexits \<Rightarrow> None);
          f = (case getAll of
                 Returns (m0, err) \<Rightarrow> Returns err
               | Panics v \<Rightarrow> Panics v
               | Goexits \<Rightarrow> Goexits)
      in case Invoke (Some (\<lambda>j. j\<lparr>goexit := True\<rparr>)) f i of
           (Exited, i') \<Rightarrow> (Exited, i')
         | (Returned (Some err), i') \<Rightarrow> (Returned (Some err), i')
         | (Returned None, i') \<Rightarrow> (Returned None, i'\<lparr>snapshot := local_m\<rparr>))"

section \<open>Package loadingcache: the randomized clock\<close>

text \<open>
  A \<open>float64\<close> is a real number, an infinity or NaN; only its order is used here.
  \<open>float64_gt\<close> is the comparison \<open>>\<close> of the language: false whenever an operand is NaN.
\<close>

datatype float64 = Finite real | PosInf | NegInf | NaN

fun float64_gt :: "float64 \<Rightarrow> float64 \<Rightarrow> bool" where
  "float64_gt NaN y = False"
| "float64_gt x NaN = False"
| "float64_gt (Finite a) (Finite b) = (b < a)"
| "float64_gt PosInf PosInf = False"
| "float64_gt PosInf y = True"
| "float64_gt x PosInf = False"
| "float64_gt NegInf y = False"
| "float64_gt (Finite a) NegInf = True"

record RandomizedClock =
  Duration :: int
  Percentage :: float64

text \<open>
  \<open>Now\<close>, given the value \<open>draw\<close> that \<open>r.randFloat64()\<close> returns and the reading \<open>base\<close>
  that \<open>r.Clock.Now()\<close> returns in this call; \<open>t.Add(d)\<close> is \<open>t + d\<close>.
\<close>

definition Now :: "RandomizedClock \<Rightarrow> float64 \<Rightarrow> time \<Rightarrow> time" where
  "Now r draw base = (if float64_gt draw (Percentage r) then base else base + Duration r)"

section \<open>Concrete instances\<close>

text \<open>
  A cache over natural-number keys whose storage holds one negative entry, for key 2,
  and whose loader answers every key; its state counts the loader calls.
\<close>

definition neg_entry :: "(nat, string) CacheEntry" where
  "neg_entry = \<lparr>Entry = \<lparr>Key = 2, Value = []\<rparr>, ExpiresAt = 300, NegativeCache = True\<rparr>"

definition neg_cache :: "(nat, string, nat) LoadingCache" where
  "neg_cache =
     \<lparr>Loader =
        \<lparr>LoadAndStore = (\<lambda>k s. (Inr (Some \<lparr>Key = k, Value = ''loaded''\<rparr>), s + 1)),
         LoadAndStoreMulti =
           (\<lambda>ks s. (Inr (map (\<lambda>k. Some \<lparr>Key = k, Value = ''loaded''\<rparr>) ks), s + 1))\<rparr>,
      Storage =
        \<lparr>Get = (\<lambda>k s. (Inr (if k = 2 then Some neg_entry else None), s)),
         GetMulti = (\<lambda>ks s. (Inr (map (\<lambda>k. if k = 2 then Some neg_entry else None) ks), s))\<rparr>\<rparr>"

text \<open>
  A sharded storage of three empty buckets over integer keys that hashes a key to
  itself, with the identity cloner.
\<close>

definition three_buckets :: "(int, string) distributedStorage" where
  "three_buckets =
     \<lparr>buckets = [Map.empty, Map.empty, Map.empty],
      options = \<lparr>hashKey = word_of_int, bucketsSize = 3, cloner = (\<lambda>v. v), zeroValue = []\<rparr>\<rparr>"

text \<open>
  The entry \<open>{1, "x"}\<close> expiring at instant 3600, stored under key 1 in a sharded storage
  of three buckets and in a single-bucket storage.
\<close>

definition entry_x :: "(int, string) CacheEntry" where
  "entry_x = \<lparr>Entry = \<lparr>Key = 1, Value = ''x''\<rparr>, ExpiresAt = 3600, NegativeCache = False\<rparr>"

definition stocked_buckets :: "(int, string) distributedStorage" where
  "stocked_buckets =
     \<lparr>buckets = [Map.empty, [1 \<mapsto> entry_x], Map.empty],
      options = \<lparr>hashKey = word_of_int, bucketsSize = 3, cloner = (\<lambda>v. v), zeroValue = []\<rparr>\<rparr>"

definition stocked_storage :: "(int, string) storage" where
  "stocked_storage =
     \<lparr>bucket = [1 \<mapsto> entry_x],
      opts = \<lparr>hashKey = word_of_int, bucketsSize = 1, cloner = (\<lambda>v. v), zeroValue = []\<rparr>\<rparr>"

text \<open>
  The relation between a single-bucket storage and a sharded storage over one bucket that
  hold the same map and the same options.
\<close>

definition same_contents :: "('k, 'v) storage \<Rightarrow> ('k, 'v) distributedStorage \<Rightarrow> bool" where
  "same_contents st s = (buckets s = [bucket st] \<and> options s = opts st)"

text \<open>
  A loader with three waiters registered for key 1 on the fresh channels 0, 1 and 2 (each
  made by \<open>make(chan, 1)\<close>), whose cloner marks the values it clones, and a loaded entry.
\<close>

definition fresh_chans :: "(nat, string) chans" where
  "fresh_chans = (\<lambda>c. \<lparr>buf = [], cap = 1, closed = False\<rparr>)"

definition three_waiters :: "(nat, string) SingleFlightLoader" where
  "three_waiters = \<lparr>value_cloner = (\<lambda>v. v @ ''+''), waitlists = [1 \<mapsto> [0, 1, 2]]\<rparr>"

definition loaded_v :: "(nat, string) CacheEntry" where
  "loaded_v = \<lparr>Entry = \<lparr>Key = 1, Value = ''v''\<rparr>, ExpiresAt = 3600, NegativeCache = False\<rparr>"

text \<open>
  A cache over natural-number keys whose storage holds key 1 with the value
  \<open>''a''\<close>, holds a negative entry for key 2 and misses every other key, and
  whose loader finds every key except 4 in the source; the state counts the
  calls of the loader.
\<close>

definition hit_entry :: "(nat, string) CacheEntry" where
  "hit_entry = \<lparr>Entry = \<lparr>Key = 1, Value = ''a''\<rparr>, ExpiresAt = 300, NegativeCache = False\<rparr>"

definition absent_entry :: "(nat, string) CacheEntry" where
  "absent_entry = \<lparr>Entry = \<lparr>Key = 2, Value = []\<rparr>, ExpiresAt = 300, NegativeCache = True\<rparr>"

definition partial_cache :: "(nat, string, nat) LoadingCache" where
  "partial_cache =
     \<lparr>Loader =
        \<lparr>LoadAndStore =
           (\<lambda>k s. (Inr (if k = 4 then None else Some \<lparr>Key = k, Value = ''b''\<rparr>), s + 1)),
         LoadAndStoreMulti =
           (\<lambda>ks s. (Inr (map (\<lambda>k. if k = 4 then None else Some \<lparr>Key = k, Value = ''b''\<rparr>) ks),
                     s + 1))\<rparr>,
      Storage =
        \<lparr>Get = (\<lambda>k s. (Inr (if k = 1 then Some hit_entry
                               else if k = 2 then Some absent_entry else None), s)),
         GetMulti =
           (\<lambda>ks s. (Inr (map (\<lambda>k. if k = 1 then Some hit_entry
                                    else if k = 2 then Some absent_entry else None) ks), s))\<rparr>\<rparr>"



definition pets_and :: "(string, bool, nat) AndIndex" where
  "pets_and =
     \<lparr>and_Left = (\<lambda>l. Inr (if l = ''cat'' then [1, 2, 3] else if l = ''dog'' then [1] else [])),
      and_Right = (\<lambda>r. Inr (if r then [2, 3, 4] else [2, 2]))\<rparr>"

section \<open>Properties of the composite indexes\<close>






text \<open>
  \<open>Intersection\<close> over iterators without repeated values: a value is yielded when the
  iterators read so far, this one included, all hold it.
\<close>

lemma Intersection_seq_of_distinct:
  assumes "distinct vs"
  shows "fst (Intersection_seq n seen vs) = filter (\<lambda>v. count_of seen v + 1 = n) vs
       \<and> (\<forall>v. count_of (snd (Intersection_seq n seen vs)) v
                = count_of seen v + (if v \<in> set vs then 1 else 0))"
  using assms
proof (induction vs arbitrary: seen)
  case Nil
  show ?case by simp
next
  case (Cons x xs)
  let ?seen = "seen(x \<mapsto> count_of seen x + 1)"
  have cx: "count_of ?seen x = count_of seen x + 1" by (simp add: count_of_def)
  have co: "count_of ?seen v = count_of seen v" if "v \<noteq> x" for v
    using that by (simp add: count_of_def)
  have d: "distinct xs" and nin: "x \<notin> set xs" using Cons.prems by simp_all
  have ih: "fst (Intersection_seq n ?seen xs) = filter (\<lambda>v. count_of ?seen v + 1 = n) xs"
    and ihc: "\<forall>v. count_of (snd (Intersection_seq n ?seen xs)) v
                = count_of ?seen v + (if v \<in> set xs then 1 else 0)"
    using Cons.IH [OF d, of ?seen] by blast+
  have co': "count_of ?seen v = count_of seen v" if "v \<in> set xs" for v
    using that nin co [of v] by auto
  have fl: "filter (\<lambda>v. count_of ?seen v + 1 = n) xs = filter (\<lambda>v. count_of seen v + 1 = n) xs"
    by (rule filter_cong) (simp_all only: co')
  have f: "fst (Intersection_seq n seen (x # xs))
           = (if count_of ?seen x = n then x # fst (Intersection_seq n ?seen xs)
              else fst (Intersection_seq n ?seen xs))"
    by (simp add: Let_def split: prod.splits)
  have s: "snd (Intersection_seq n seen (x # xs)) = snd (Intersection_seq n ?seen xs)"
    by (simp add: Let_def split: prod.splits)
  define P where "P = (\<lambda>v. count_of seen v + 1 = n)"
  have h: "fst (Intersection_seq n ?seen xs) = filter P xs"
    unfolding P_def using ih fl by (simp only:)
  have f': "fst (Intersection_seq n seen (x # xs))
           = (if P x then x # fst (Intersection_seq n ?seen xs)
              else fst (Intersection_seq n ?seen xs))"
    unfolding P_def using f cx by (simp only:)
  have "fst (Intersection_seq n seen (x # xs)) = filter P (x # xs)"
    by (simp only: f' h filter.simps)
  then have a: "fst (Intersection_seq n seen (x # xs))
                = filter (\<lambda>v. count_of seen v + 1 = n) (x # xs)"
    unfolding P_def .
  have b: "\<forall>v. count_of (snd (Intersection_seq n seen (x # xs))) v
                = count_of seen v + (if v \<in> set (x # xs) then 1 else 0)"
  proof
    fix v
    show "count_of (snd (Intersection_seq n seen (x # xs))) v
                = count_of seen v + (if v \<in> set (x # xs) then 1 else 0)"
      using s ihc cx co [of v] nin by (cases "v = x") simp_all
  qed
  show ?case using a b by simp
qed

lemma Intersection_two_of_distinct:
  assumes "distinct l" and "distinct r"
  shows "Intersection [l, r] = filter (\<lambda>pk. pk \<in> set l) r"
proof -
  let ?s1 = "snd (Intersection_seq 2 Map.empty l)"
  have l1: "fst (Intersection_seq 2 Map.empty l) = []"
    and l2: "\<forall>v. count_of ?s1 v = (if v \<in> set l then 1 else 0)"
    using Intersection_seq_of_distinct [OF assms(1), of 2 Map.empty]
    by (simp_all add: count_of_def)
  have "fst (Intersection_seq 2 ?s1 r) = filter (\<lambda>v. count_of ?s1 v + 1 = 2) r"
    using Intersection_seq_of_distinct [OF assms(2), of 2 ?s1] by simp
  also have "\<dots> = filter (\<lambda>pk. pk \<in> set l) r"
    using l2 by (intro filter_cong) auto
  finally have r1: "fst (Intersection_seq 2 ?s1 r) = filter (\<lambda>pk. pk \<in> set l) r" .
  have "Intersection [l, r]
          = fst (Intersection_seq 2 Map.empty l) @ fst (Intersection_seq 2 ?s1 r)"
    by (simp add: Intersection_def split: prod.splits)
  then show ?thesis using l1 r1 by simp
qed




text \<open>
  C1. \<open>AndIndex.Get\<close> should return the primary keys that occur in both underlying
  results. \<open>Intersection\<close> counts the occurrences of a value in one map shared by both
  iterators, so a key that occurs twice in the right result reaches the count 2 without
  occurring in the left one: with both keys present, the left result \<open>[1]\<close> and the right
  result \<open>[2, 2]\<close>, the answer is \<open>[2]\<close>, although 2 is not in the left result.
\<close>

theorem AndIndex_Get_duplicates:
  "and_Left pets_and ''dog'' = Inr [1]
   \<and> and_Right pets_and False = Inr [2, 2]
   \<and> AndIndex_Get pets_and (NewKeys ''dog'' False) = Inr [2]
   \<and> 2 \<notin> set [1 :: nat]"
  by (simp add: AndIndex_Get_def side_Get_def pets_and_def NewKeys_def Intersection_def
      count_of_def Let_def)

text \<open>
  The rest of what is expected of \<open>AndIndex.Get\<close> holds: with both keys present the
  answer is empty when either result is empty, and it is the list of the right-side
  values that occur in the left result when neither result holds a value twice.
\<close>

lemma AndIndex_Get_empty_result:
  assumes "and_Left i l = Inr leftPks" and "and_Right i r = Inr rightPks"
    and "leftPks = [] \<or> rightPks = []"
  shows "AndIndex_Get i (NewKeys l r) = Inr []"
  using assms by (auto simp: AndIndex_Get_def side_Get_def NewKeys_def Let_def)

lemma AndIndex_Get_of_distinct:
  assumes "and_Left i l = Inr leftPks" and "and_Right i r = Inr rightPks"
    and "distinct leftPks" and "distinct rightPks"
  shows "AndIndex_Get i (NewKeys l r) = Inr (filter (\<lambda>pk. pk \<in> set leftPks) rightPks)"
proof (cases "leftPks = [] \<or> rightPks = []")
  case True
  then have "filter (\<lambda>pk. pk \<in> set leftPks) rightPks = []" by auto
  then show ?thesis using AndIndex_Get_empty_result [OF assms(1,2) True] by simp
next
  case False
  then have "AndIndex_Get i (NewKeys l r) = Inr (Intersection [leftPks, rightPks])"
    using assms(1,2) by (simp add: AndIndex_Get_def side_Get_def NewKeys_def Let_def)
  then show ?thesis using Intersection_two_of_distinct [OF assms(3,4)] by simp
qed

lemma AndIndex_Get_pets:
  "AndIndex_Get pets_and (NewKeys ''cat'' True) = Inr [2, 3]"
  using AndIndex_Get_of_distinct [of pets_and "''cat''" "[1, 2, 3]" True "[2, 3, 4]"]
  by (simp add: pets_and_def)

section \<open>Properties of the index refresh, the clock and the cache\<close>

text \<open>
  C7. When the source's \<open>GetAll\<close> returns an error, \<open>Refresh\<close> returns that error and
  the index is as before: the map is not replaced and the exit flag is not set.
\<close>

theorem Refresh_error_keeps_state:
  "Refresh (Returns (m0, Some err)) i = (Returned (Some err), i)"
  by (simp add: Refresh_def Invoke_def)

lemma Refresh_panic_keeps_state:
  "Refresh (Panics v) i = (Returned (Some (Recovered v)), i)"
  by (simp add: Refresh_def Invoke_def)

lemma Refresh_success:
  "Refresh (Returns (m0, None)) i = (Returned None, i\<lparr>snapshot := m0\<rparr>)"
  by (simp add: Refresh_def Invoke_def)

lemma Refresh_goexit:
  "Refresh Goexits i = (Exited, i\<lparr>goexit := True\<rparr>)"
  by (simp add: Refresh_def Invoke_def)

text \<open>
  C10. \<open>RandomizedClock.Now\<close> returns the base time when the draw is strictly greater
  than \<open>Percentage\<close> and the base time plus \<open>Duration\<close> otherwise. With \<open>Percentage = 0\<close>
  a draw of exactly 0 gives the shifted time; with \<open>Percentage = 1\<close> every draw of
  \<open>[0, 1)\<close> gives the shifted time.
\<close>

theorem RandomizedClock_Now_cases:
  "Now r draw base = (if float64_gt draw (Percentage r) then base else base + Duration r)
   \<and> Now (r\<lparr>Percentage := Finite 0\<rparr>) (Finite 0) base = base + Duration r
   \<and> (0 \<le> x \<and> x < 1 \<longrightarrow> Now (r\<lparr>Percentage := Finite 1\<rparr>) (Finite x) base = base + Duration r)"
  by (simp add: Now_def)

theorem RandomizedClock_Now_cases_witness:
  "(0::real) \<le> 1 / 2 \<and> (1 / 2 :: real) < 1
   \<and> Now \<lparr>Duration = 7, Percentage = Finite 1\<rparr> (Finite (1 / 2)) 100 = 107
   \<and> Now \<lparr>Duration = 7, Percentage = Finite 0\<rparr> (Finite 0) 100 = 107
   \<and> Now \<lparr>Duration = 7, Percentage = Finite (1 / 4)\<rparr> (Finite (1 / 2)) 100 = 100"
  using RandomizedClock_Now_cases
    [of "\<lparr>Duration = 7, Percentage = Finite (1 / 4)\<rparr>" "Finite (1 / 2)" 100 "1 / 2"]
  by simp

text \<open>
  C5. When the storage lookup of a key returns an entry with \<open>NegativeCache\<close> set,
  \<open>GetOrLoad\<close> returns a nil entry and a nil error, and the list of loader calls is the
  one from before the call: the loader is not invoked.
\<close>

theorem GetOrLoad_negative_hit:
  assumes "Get (Storage c) key s = (Inr (Some cacheEntry), s1)" and "NegativeCache cacheEntry"
  shows "GetOrLoad (with_trace c) key (s, calls) = (Inr None, (s1, calls))"
  using assms by (simp add: GetOrLoad_def with_trace_def untraced_def)

theorem GetOrLoad_negative_hit_witness:
  "Get (Storage neg_cache) 2 0 = (Inr (Some neg_entry), 0)
   \<and> NegativeCache neg_entry
   \<and> GetOrLoad (with_trace neg_cache) 2 (0, []) = (Inr None, (0, []))
   \<and> GetOrLoad (with_trace neg_cache) 3 (0, [])
        = (Inr (Some \<lparr>Key = 3, Value = ''loaded''\<rparr>), (1, [CallLoadAndStore 3]))"
  using GetOrLoad_negative_hit [of neg_cache 2 0 neg_entry 0 "[]"]
  by (simp add: neg_cache_def neg_entry_def GetOrLoad_def with_trace_def untraced_def traced_def)

section \<open>Properties of the bucket selection\<close>

lemma sint_word_of_int_64:
  "- (2 ^ 63) \<le> k \<Longrightarrow> k < 2 ^ 63 \<Longrightarrow> sint (word_of_int k :: 64 word) = k"
  by (simp add: sint_sbintrunc' signed_take_bit_int_eq_self)

lemma unat_word_of_int_64:
  "0 \<le> k \<Longrightarrow> k < 2 ^ 63 \<Longrightarrow> unat (word_of_int k :: 64 word) = nat k"
proof -
  assume a: "0 \<le> k" "k < 2 ^ 63"
  then have "k < 2 ^ 64" by simp
  with a have "take_bit 64 k = k" by (simp add: take_bit_int_eq_self)
  then show ?thesis by (simp add: unat_eq_nat_uint uint_word_of_int_eq)
qed

lemma smod_abs_bound:
  fixes a :: int
  assumes "0 < n"
  shows "\<bar>a smod n\<bar> = \<bar>a\<bar> mod n" and "\<bar>a smod n\<bar> < n"
proof -
  have nn: "0 \<le> \<bar>a\<bar> mod n" using assms by simp
  have an: "\<bar>n\<bar> = n" using assms by simp
  show eq: "\<bar>a smod n\<bar> = \<bar>a\<bar> mod n"
  proof (cases "a = 0")
    case True
    then show ?thesis by (simp add: signed_modulo_int_def)
  next
    case False
    then have "\<bar>sgn a\<bar> = 1" by (simp add: sgn_if)
    then have "\<bar>sgn a * (\<bar>a\<bar> mod n)\<bar> = \<bar>a\<bar> mod n"
      using nn by (simp add: abs_mult)
    then show ?thesis by (simp add: signed_modulo_int_def an)
  qed
  show "\<bar>a smod n\<bar> < n" using assms by (simp add: eq)
qed

lemma bucket_index_value:
  fixes h :: "64 word"
  assumes n: "0 < n" "n < 2 ^ 63"
  defines "index \<equiv> go_rem h (word_of_nat n)"
  defines "index' \<equiv> (if index <s 0 then index * (- 1) else index)"
  shows "0 \<le>s index'" and "unat index' = nat (\<bar>sint h\<bar> mod int n)"
    and "index' = word_of_int (\<bar>sint h\<bar> mod int n)"
proof -
  let ?r = "sint h smod int n"
  have n': "0 < int n" "int n < 2 ^ 63" using n by simp_all
  have wn: "sint (word_of_nat n :: 64 word) = int n"
    using sint_word_of_int_64 [of "int n"] n' by simp
  have ab: "\<bar>?r\<bar> = \<bar>sint h\<bar> mod int n" "\<bar>?r\<bar> < int n"
    using smod_abs_bound [of "int n" "sint h"] n' by simp_all
  have rng: "- (2 ^ 63) \<le> ?r" "?r < 2 ^ 63" "- (2 ^ 63) \<le> - ?r" "- ?r < 2 ^ 63"
    using ab n' by linarith+
  have idx: "index = word_of_int ?r"
    by (simp add: index_def go_rem_def wn)
  have si: "sint index = ?r"
    using sint_word_of_int_64 [OF rng(1,2)] idx by simp
  have i': "index' = word_of_int \<bar>?r\<bar>"
  proof (cases "?r < 0")
    case True
    then have "index <s 0" by (simp add: word_sless_alt si)
    then have "index' = - word_of_int ?r" by (simp add: index'_def idx)
    also have "\<dots> = word_of_int (- ?r)" by simp
    finally show ?thesis using True by simp
  next
    case False
    then have "\<not> index <s 0" by (simp add: word_sless_alt si)
    then show ?thesis using False by (simp add: index'_def idx)
  qed
  have r2: "0 \<le> \<bar>?r\<bar>" "\<bar>?r\<bar> < 2 ^ 63" using ab n' by linarith+
  have "sint index' = \<bar>?r\<bar>"
    using sint_word_of_int_64 [of "\<bar>?r\<bar>"] r2 i' by simp
  then show "0 \<le>s index'" by (simp add: word_sle_eq)
  show "unat index' = nat (\<bar>sint h\<bar> mod int n)"
    using unat_word_of_int_64 [OF r2] i' ab by simp
  show "index' = word_of_int (\<bar>sint h\<bar> mod int n)"
    using i' ab by simp
qed


lemma resolveBucket_value:
  assumes "0 < length (buckets s)" and "length (buckets s) < 2 ^ 63"
  shows "resolveBucket s key
           = Inr (nat (\<bar>sint (hashKey (options s) key)\<bar> mod int (length (buckets s))))"
proof -
  have lt: "nat (\<bar>sint (hashKey (options s) key)\<bar> mod int (length (buckets s)))
              < length (buckets s)"
    using assms(1) by (simp add: nat_less_iff)
  show ?thesis
    using assms lt
      bucket_index_value(1,2) [OF assms, of "hashKey (options s) key"]
    by (simp add: resolveBucket_def Let_def)
qed

lemma resolveBuckets_loop_indexes:
  assumes "0 < length (buckets s)" and "length (buckets s) < 2 ^ 63"
  shows "\<exists>bs'. resolveBuckets_loop s indexes seen bs keys
           = Inr (\<lambda>k. if k \<in> set keys
                       then Some (word_of_int
                              (\<bar>sint (hashKey (options s) k)\<bar> mod int (length (buckets s))))
                       else indexes k, bs')"
proof (induction keys arbitrary: indexes seen bs)
  case Nil
  show ?case by simp
next
  case (Cons key keys)
  let ?F = "\<lambda>k. word_of_int (\<bar>sint (hashKey (options s) k)\<bar> mod int (length (buckets s))) :: 64 word"
  let ?index = "(if go_rem (hashKey (options s) key) (word_of_nat (length (buckets s))) <s 0
                 then go_rem (hashKey (options s) key) (word_of_nat (length (buckets s))) * - 1
                 else go_rem (hashKey (options s) key) (word_of_nat (length (buckets s))))"
  have iv: "?index = ?F key"
    by (rule bucket_index_value(3) [OF assms])
  obtain bs' where
    r: "resolveBuckets_loop s (indexes(key \<mapsto> ?F key)) (insert (?F key) seen)
          (if ?F key \<in> seen then bs else bs @ [?F key]) keys
        = Inr (\<lambda>k. if k \<in> set keys then Some (?F k) else (indexes(key \<mapsto> ?F key)) k, bs')"
    using Cons.IH by blast
  have fe: "(\<lambda>k. if k \<in> set keys then Some (?F k) else (indexes(key \<mapsto> ?F key)) k)
          = (\<lambda>k. if k \<in> set (key # keys) then Some (?F k) else indexes k)"
    by (rule ext) simp
  have "resolveBuckets_loop s indexes seen bs (key # keys)
        = resolveBuckets_loop s (indexes(key \<mapsto> ?index)) (insert ?index seen)
            (if ?index \<in> seen then bs else bs @ [?index]) keys"
    using assms(1) by (simp add: Let_def)
  also have "\<dots> = Inr (\<lambda>k. if k \<in> set (key # keys) then Some (?F k) else indexes k, bs')"
    unfolding iv using r fe by simp
  finally show ?case by blast
qed

text \<open>
  C6. With \<open>N\<close> buckets (\<open>0 < N\<close>; a slice length is below \<open>2 ^ 63\<close>) and any hash
  function, \<open>resolveBucket\<close> selects the bucket at position \<open>|hash(key)| mod N\<close>, a
  position below \<open>N\<close>; \<open>resolveBuckets\<close> succeeds and the index it records for each of
  its keys is the position \<open>resolveBucket\<close> selects for that key, an existing bucket.
\<close>

theorem resolveBucket_abs_mod:
  assumes "0 < length (buckets s)" and "length (buckets s) < 2 ^ 63"
  shows "resolveBucket s key
           = Inr (nat (\<bar>sint (hashKey (options s) key)\<bar> mod int (length (buckets s))))
       \<and> nat (\<bar>sint (hashKey (options s) key)\<bar> mod int (length (buckets s))) < length (buckets s)
       \<and> (\<exists>indexes bs. resolveBuckets s keys = Inr (indexes, bs)
            \<and> (\<forall>k \<in> set keys.
                  resolveBucket s k = Inr (unat (index_of indexes k))
                  \<and> bucket_at (buckets s) (index_of indexes k)
                      = Inr (buckets s ! unat (index_of indexes k))))"
proof -
  let ?n = "length (buckets s)"
  let ?F = "\<lambda>k. word_of_int (\<bar>sint (hashKey (options s) k)\<bar> mod int ?n) :: 64 word"
  have lt: "nat (\<bar>sint (hashKey (options s) k)\<bar> mod int ?n) < ?n" for k
    using assms(1) by (simp add: nat_less_iff)
  obtain bs where rb: "resolveBuckets s keys
      = Inr (\<lambda>k. if k \<in> set keys then Some (?F k) else Map.empty k, bs)"
    using resolveBuckets_loop_indexes [OF assms, of Map.empty "{}" "[]" keys]
    by (auto simp: resolveBuckets_def)
  have each: "resolveBucket s k = Inr (unat (?F k))
              \<and> bucket_at (buckets s) (?F k) = Inr (buckets s ! unat (?F k))" for k
  proof -
    have a: "0 \<le>s ?F k" and b: "unat (?F k) = nat (\<bar>sint (hashKey (options s) k)\<bar> mod int ?n)"
      using bucket_index_value [OF assms, of "hashKey (options s) k"] by simp_all
    show ?thesis
      using a b lt [of k] resolveBucket_value [OF assms, of k]
      by (simp add: bucket_at_def)
  qed
  have "\<forall>k \<in> set keys.
          resolveBucket s k
            = Inr (unat (index_of (\<lambda>k. if k \<in> set keys then Some (?F k) else Map.empty k) k))
          \<and> bucket_at (buckets s)
              (index_of (\<lambda>k. if k \<in> set keys then Some (?F k) else Map.empty k) k)
            = Inr (buckets s
                ! unat (index_of (\<lambda>k. if k \<in> set keys then Some (?F k) else Map.empty k) k))"
    using each by (simp add: index_of_def)
  with rb have ex: "\<exists>indexes bs. resolveBuckets s keys = Inr (indexes, bs)
            \<and> (\<forall>k \<in> set keys.
                  resolveBucket s k = Inr (unat (index_of indexes k))
                  \<and> bucket_at (buckets s) (index_of indexes k)
                      = Inr (buckets s ! unat (index_of indexes k)))"
    by blast
  show ?thesis
    using resolveBucket_value [OF assms, of key] lt [of key] ex by blast
qed

theorem resolveBucket_abs_mod_witness:
  "0 < length (buckets three_buckets) \<and> length (buckets three_buckets) < 2 ^ 63
   \<and> resolveBucket three_buckets (- 7) = Inr 1
   \<and> resolveBucket three_buckets (- 9223372036854775808) = Inr 2"
  using resolveBucket_abs_mod [of three_buckets "- 7" "[- 7]"]
        resolveBucket_abs_mod [of three_buckets "- 9223372036854775808" "[]"]
  by (simp add: three_buckets_def)


section \<open>Properties of the storage: expiration\<close>

lemma d_Get_value:
  assumes "0 < length (buckets s)" and "length (buckets s) < 2 ^ 63"
  shows "d_Get s now key
     = Inr (case (buckets s ! nat (\<bar>sint (hashKey (options s) key)\<bar> mod int (length (buckets s)))) key of
              Some v \<Rightarrow>
                if now < ExpiresAt v
                then Some (cloneCacheEntry (cloner (options s)) (zeroValue (options s)) v)
                else None
            | None \<Rightarrow> None)"
  using resolveBucket_value [OF assms, of key]
  by (simp add: d_Get_def Before_def split: option.splits)

lemma d_GetMulti_loop_Get:
  assumes "0 < length (buckets s)" and "length (buckets s) < 2 ^ 63"
    and "\<forall>k \<in> set keys. indexes k
           = Some (word_of_int (\<bar>sint (hashKey (options s) k)\<bar> mod int (length (buckets s))))"
  shows "d_GetMulti_loop s now indexes keys = Inr (map (\<lambda>k. projr (d_Get s now k)) keys)"
  using assms(3)
proof (induction keys)
  case Nil
  show ?case by simp
next
  case (Cons key keys)
  let ?w = "word_of_int (\<bar>sint (hashKey (options s) key)\<bar> mod int (length (buckets s))) :: 64 word"
  have io: "index_of indexes key = ?w"
    using Cons.prems by (simp add: index_of_def)
  have a: "0 \<le>s ?w"
    and b: "unat ?w = nat (\<bar>sint (hashKey (options s) key)\<bar> mod int (length (buckets s)))"
    using bucket_index_value [OF assms(1,2), of "hashKey (options s) key"] by simp_all
  have lt: "nat (\<bar>sint (hashKey (options s) key)\<bar> mod int (length (buckets s))) < length (buckets s)"
    using assms(1) by (simp add: nat_less_iff)
  have ba: "bucket_at (buckets s) (index_of indexes key)
             = Inr (buckets s ! nat (\<bar>sint (hashKey (options s) key)\<bar> mod int (length (buckets s))))"
    using a b lt by (simp add: bucket_at_def io)
  have ih: "d_GetMulti_loop s now indexes keys = Inr (map (\<lambda>k. projr (d_Get s now k)) keys)"
    using Cons by simp
  show ?case
    by (simp add: ba ih d_Get_value [OF assms(1,2)] Before_def Let_def split: option.splits)
qed

lemma d_GetMulti_Get:
  assumes "0 < length (buckets s)" and "length (buckets s) < 2 ^ 63"
  shows "d_GetMulti s now keys = Inr (map (\<lambda>k. projr (d_Get s now k)) keys)"
proof -
  obtain bs where rb: "resolveBuckets s keys
      = Inr (\<lambda>k. if k \<in> set keys
                  then Some (word_of_int (\<bar>sint (hashKey (options s) k)\<bar> mod int (length (buckets s))))
                  else Map.empty k, bs)"
    using resolveBuckets_loop_indexes [OF assms, of Map.empty "{}" "[]" keys]
    by (auto simp: resolveBuckets_def)
  show ?thesis
    using d_GetMulti_loop_Get [OF assms, of keys _ now]
    by (simp add: d_GetMulti_def rb)
qed

lemma s_GetMulti_Get:
  "s_GetMulti st now keys = Inr (map (\<lambda>k. projr (s_Get st now k)) keys)"
  by (induction keys) (auto simp: s_GetMulti_def s_Get_def split: option.splits)

text \<open>
  C2. For an entry stored under a key, \<open>Get\<close> returns (a clone of) the entry when the
  clock reading is strictly before the entry's \<open>ExpiresAt\<close> and nil otherwise, in
  particular at the exact expiry instant; \<open>GetMulti\<close> returns one result per key, and at
  each position of that key the same result. This holds for the sharded storage and for
  the single-bucket storage.
\<close>

theorem Get_expiration:
  assumes "0 < length (buckets s)" and "length (buckets s) < 2 ^ 63"
    and "resolveBucket s key = Inr b" and "(buckets s ! b) key = Some v"
    and "bucket st key = Some w"
    and "i < length keys" and "keys ! i = key"
  shows "d_Get s now key
           = Inr (if now < ExpiresAt v
                  then Some (cloneCacheEntry (cloner (options s)) (zeroValue (options s)) v)
                  else None)
       \<and> d_Get s (ExpiresAt v) key = Inr None
       \<and> (\<exists>rs. d_GetMulti s now keys = Inr rs \<and> length rs = length keys
             \<and> rs ! i = (if now < ExpiresAt v
                         then Some (cloneCacheEntry (cloner (options s)) (zeroValue (options s)) v)
                         else None))
       \<and> s_Get st now key
           = Inr (if now < ExpiresAt w
                  then Some (cloneCacheEntry (cloner (opts st)) (zeroValue (opts st)) w)
                  else None)
       \<and> s_Get st (ExpiresAt w) key = Inr None
       \<and> (\<exists>rs. s_GetMulti st now keys = Inr rs \<and> length rs = length keys
             \<and> rs ! i = (if now < ExpiresAt w
                         then Some (cloneCacheEntry (cloner (opts st)) (zeroValue (opts st)) w)
                         else None))"
proof -
  have dg: "d_Get s t key
           = Inr (if t < ExpiresAt v
                  then Some (cloneCacheEntry (cloner (options s)) (zeroValue (options s)) v)
                  else None)" for t
    using assms(3,4) by (simp add: d_Get_def Before_def)
  have sg: "s_Get st t key
           = Inr (if t < ExpiresAt w
                  then Some (cloneCacheEntry (cloner (opts st)) (zeroValue (opts st)) w)
                  else None)" for t
    using assms(5) by (simp add: s_Get_def Before_def)
  have dm: "d_GetMulti s now keys = Inr (map (\<lambda>k. projr (d_Get s now k)) keys)"
    by (rule d_GetMulti_Get [OF assms(1,2)])
  have dmi: "map (\<lambda>k. projr (d_Get s now k)) keys ! i
              = (if now < ExpiresAt v
                 then Some (cloneCacheEntry (cloner (options s)) (zeroValue (options s)) v)
                 else None)"
    using assms(6,7) by (simp add: dg)
  have sm: "s_GetMulti st now keys = Inr (map (\<lambda>k. projr (s_Get st now k)) keys)"
    by (rule s_GetMulti_Get)
  have smi: "map (\<lambda>k. projr (s_Get st now k)) keys ! i
              = (if now < ExpiresAt w
                 then Some (cloneCacheEntry (cloner (opts st)) (zeroValue (opts st)) w)
                 else None)"
    using assms(6,7) by (simp add: sg)
  have c1: "d_Get s (ExpiresAt v) key = Inr None" by (simp add: dg)
  have c2: "s_Get st (ExpiresAt w) key = Inr None" by (simp add: sg)
  have c3: "\<exists>rs. d_GetMulti s now keys = Inr rs \<and> length rs = length keys
             \<and> rs ! i = (if now < ExpiresAt v
                         then Some (cloneCacheEntry (cloner (options s)) (zeroValue (options s)) v)
                         else None)"
    using dm dmi by simp
  have c4: "\<exists>rs. s_GetMulti st now keys = Inr rs \<and> length rs = length keys
             \<and> rs ! i = (if now < ExpiresAt w
                         then Some (cloneCacheEntry (cloner (opts st)) (zeroValue (opts st)) w)
                         else None)"
    using sm smi by simp
  show ?thesis using dg [of now] sg [of now] c1 c2 c3 c4 by blast
qed


theorem Get_expiration_witness:
  "0 < length (buckets stocked_buckets) \<and> length (buckets stocked_buckets) < 2 ^ 63
   \<and> resolveBucket stocked_buckets 1 = Inr 1
   \<and> (buckets stocked_buckets ! 1) 1 = Some entry_x
   \<and> bucket stocked_storage 1 = Some entry_x
   \<and> (1::nat) < length [0, 1 :: int] \<and> [0, 1 :: int] ! 1 = 1
   \<and> d_Get stocked_buckets 3599 1 = Inr (Some entry_x)
   \<and> d_Get stocked_buckets 3600 1 = Inr None
   \<and> (\<exists>rs. d_GetMulti stocked_buckets 3599 [0, 1] = Inr rs \<and> length rs = 2
          \<and> rs ! 1 = Some entry_x)
   \<and> s_Get stocked_storage 3599 1 = Inr (Some entry_x)
   \<and> s_Get stocked_storage 3600 1 = Inr None
   \<and> s_GetMulti stocked_storage 3599 [0, 1] = Inr [None, Some entry_x]
   \<and> s_GetMulti stocked_storage 3600 [0, 1] = Inr [None, None]"
proof -
  have wf: "0 < length (buckets stocked_buckets)" "length (buckets stocked_buckets) < 2 ^ 63"
    by (simp_all add: stocked_buckets_def)
  have rb: "resolveBucket stocked_buckets 1 = Inr 1"
    using resolveBucket_value [OF wf, of 1] by (simp add: stocked_buckets_def)
  have st: "(buckets stocked_buckets ! 1) 1 = Some entry_x"
    by (simp add: stocked_buckets_def)
  have sst: "bucket stocked_storage 1 = Some entry_x"
    by (simp add: stocked_storage_def)
  have i1: "(1::nat) < length [0, 1 :: int]" and i2: "[0, 1 :: int] ! 1 = 1"
    by simp_all
  have cl: "cloneCacheEntry (\<lambda>v. v) [] entry_x = entry_x"
    by (simp add: cloneCacheEntry_def entry_x_def)
  have ex: "ExpiresAt entry_x = 3600" by (simp add: entry_x_def)
  have o1: "cloner (options stocked_buckets) = (\<lambda>v. v)" "zeroValue (options stocked_buckets) = []"
    by (simp_all add: stocked_buckets_def)
  have o2: "cloner (opts stocked_storage) = (\<lambda>v. v)" "zeroValue (opts stocked_storage) = []"
    by (simp_all add: stocked_storage_def)
  have sm: "s_GetMulti stocked_storage 3599 [0, 1] = Inr [None, Some entry_x]"
       "s_GetMulti stocked_storage 3600 [0, 1] = Inr [None, None]"
    by (simp_all add: s_GetMulti_def stocked_storage_def Before_def cl ex)
  show ?thesis
    using Get_expiration [OF wf rb st sst i1 i2, of 3599] wf rb st sst sm
    by (auto simp: cl ex o1 o2)
qed


section \<open>The single-bucket storage and the sharded storage over one bucket\<close>

lemma same_contents_wf:
  assumes "same_contents st s"
  shows "0 < length (buckets s)" and "length (buckets s) < 2 ^ 63"
  using assms by (simp_all add: same_contents_def)

lemma same_contents_resolveBucket:
  assumes "same_contents st s"
  shows "resolveBucket s key = Inr 0"
  using resolveBucket_value [OF same_contents_wf [OF assms], of key] assms
  by (simp add: same_contents_def)

lemma same_contents_Get:
  assumes "same_contents st s"
  shows "d_Get s now key = s_Get st now key"
  using assms same_contents_resolveBucket [OF assms, of key]
  by (simp add: d_Get_def s_Get_def same_contents_def split: option.splits)

lemma same_contents_GetMulti:
  assumes "same_contents st s"
  shows "d_GetMulti s now keys = s_GetMulti st now keys"
  using d_GetMulti_Get [OF same_contents_wf [OF assms], of now keys]
  by (simp add: s_GetMulti_Get same_contents_Get [OF assms])

lemma same_contents_Set:
  assumes "same_contents st s"
  shows "(case d_Set s entry of
            Inl e \<Rightarrow> s_Set st entry = Inl e
          | Inr s' \<Rightarrow> (\<exists>st'. s_Set st entry = Inr st' \<and> same_contents st' s'))"
proof (cases entry)
  case None
  then show ?thesis by (simp add: d_Set_def s_Set_def)
next
  case (Some e)
  then show ?thesis
    using assms same_contents_resolveBucket [OF assms, of "Key (Entry e)"]
    by (simp add: d_Set_def s_Set_def same_contents_def)
qed

lemma same_contents_SetMulti_loop:
  assumes "same_contents st s"
    and "\<forall>e. Some e \<in> set entries \<longrightarrow> indexes (Key (Entry e)) = Some 0"
  shows "\<exists>s'. d_SetMulti_loop s indexes entries = Inr s'
              \<and> same_contents (s_SetMulti_loop st entries) s'"
  using assms
proof (induction entries arbitrary: st s)
  case Nil
  then show ?case by simp
next
  case (Cons x entries)
  show ?case
  proof (cases x)
    case None
    then show ?thesis using Cons by simp
  next
    case (Some e)
    let ?st = "st\<lparr>bucket := (bucket st)(Key (Entry e) \<mapsto>
                 cloneCacheEntry (cloner (opts st)) (zeroValue (opts st)) e)\<rparr>"
    let ?s = "s\<lparr>buckets := (buckets s)[unat (index_of indexes (Key (Entry e))) :=
                 (bucket st)(Key (Entry e) \<mapsto>
                    cloneCacheEntry (cloner (options s)) (zeroValue (options s)) e)]\<rparr>"
    have io: "index_of indexes (Key (Entry e)) = 0"
      using Cons.prems(2) Some by (simp add: index_of_def)
    have ba: "bucket_at (buckets s) (index_of indexes (Key (Entry e))) = Inr (bucket st)"
      using Cons.prems(1) by (simp add: bucket_at_def io same_contents_def)
    have sc: "same_contents ?st ?s"
      using Cons.prems(1) by (simp add: same_contents_def io)
    have rest: "\<forall>e. Some e \<in> set entries \<longrightarrow> indexes (Key (Entry e)) = Some 0"
      using Cons.prems(2) by simp
    obtain s' where "d_SetMulti_loop ?s indexes entries = Inr s'"
      and "same_contents (s_SetMulti_loop ?st entries) s'"
      using Cons.IH [OF sc rest] by blast
    then show ?thesis using Some by (simp add: ba)
  qed
qed

lemma entry_keys_mem: "Some e \<in> set entries \<Longrightarrow> Key (Entry e) \<in> set (entry_keys entries)"
  by (induction entries) (auto simp: entry_keys_def List.map_filter_def)

lemma same_contents_SetMulti:
  assumes "same_contents st s"
  shows "\<exists>s'. d_SetMulti s entries = Inr s' \<and> s_SetMulti st entries = Inr (s_SetMulti_loop st entries)
              \<and> same_contents (s_SetMulti_loop st entries) s'"
proof -
  have n1: "int (length (buckets s)) = 1"
    using assms by (simp add: same_contents_def)
  obtain bs where rb: "resolveBuckets s (entry_keys entries)
      = Inr (\<lambda>k. if k \<in> set (entry_keys entries)
                  then Some (word_of_int (\<bar>sint (hashKey (options s) k)\<bar> mod int (length (buckets s))))
                  else Map.empty k, bs)"
    using resolveBuckets_loop_indexes [OF same_contents_wf [OF assms], of Map.empty "{}" "[]"
        "entry_keys entries"]
    by (auto simp: resolveBuckets_def)
  have ix: "\<forall>e. Some e \<in> set entries \<longrightarrow>
              (\<lambda>k. if k \<in> set (entry_keys entries)
                   then Some (word_of_int (\<bar>sint (hashKey (options s) k)\<bar> mod int (length (buckets s))))
                   else Map.empty k) (Key (Entry e)) = Some (0 :: 64 word)"
    using entry_keys_mem [of _ entries] by (simp add: n1)
  show ?thesis
    using same_contents_SetMulti_loop [OF assms ix]
    by (simp add: d_SetMulti_def rb s_SetMulti_def)
qed

lemma same_contents_apply:
  assumes "same_contents st s"
  shows "fst (d_apply s x) = fst (s_apply st x)
       \<and> same_contents (snd (s_apply st x)) (snd (d_apply s x))"
proof -
  obtain now op where x: "x = (now, op)" by (cases x)
  show ?thesis
  proof (cases op)
    case (OpGet key)
    then show ?thesis
      using assms by (simp add: x same_contents_Get [OF assms] split: sum.splits)
  next
    case (OpGetMulti keys)
    then show ?thesis
      using assms by (simp add: x same_contents_GetMulti [OF assms] split: sum.splits)
  next
    case (OpSet entry)
    then show ?thesis
      using assms same_contents_Set [OF assms, of entry]
      by (auto simp: x split: sum.splits)
  next
    case (OpSetMulti entries)
    then show ?thesis
      using assms same_contents_SetMulti [OF assms, of entries]
      by (auto simp: x split: sum.splits)
  qed
qed

lemma same_contents_run:
  assumes "same_contents st s"
  shows "s_run st ops = d_run s ops"
  using assms
proof (induction ops arbitrary: st s)
  case Nil
  show ?case by simp
next
  case (Cons x ops)
  have a: "fst (d_apply s x) = fst (s_apply st x)"
    and b: "same_contents (snd (s_apply st x)) (snd (d_apply s x))"
    using same_contents_apply [OF Cons.prems, of x] by simp_all
  have "s_run (snd (s_apply st x)) ops = d_run (snd (d_apply s x)) ops"
    by (rule Cons.IH [OF b])
  then show ?case using a by (simp add: split_beta)
qed

text \<open>
  C9. With \<open>bucketsSize = 1\<close>, \<open>NewInMemoryStorage\<close> returns the single-bucket
  \<open>storage\<close>, not the sharded one; and for every sequence of \<open>Get\<close>, \<open>GetMulti\<close>,
  \<open>Set\<close> and \<open>SetMulti\<close> calls (each with its clock reading), started from the same
  map and options, the single-bucket storage returns what the sharded storage over one
  bucket returns, call by call.
\<close>

theorem single_bucket_refines_sharded:
  "NewInMemoryStorage (os\<lparr>bucketsSize := 1\<rparr>)
     = Inr (SingleBucket \<lparr>bucket = Map.empty, opts = os\<lparr>bucketsSize := 1\<rparr>\<rparr>)
   \<and> s_run \<lparr>bucket = m0, opts = os\<rparr> ops = d_run \<lparr>buckets = [m0], options = os\<rparr> ops"
proof -
  have "same_contents \<lparr>bucket = m0, opts = os\<rparr> \<lparr>buckets = [m0], options = os\<rparr>"
    by (simp add: same_contents_def)
  then show ?thesis
    using same_contents_run by (simp add: NewInMemoryStorage_def)
qed


section \<open>Properties of the single-flight delivery\<close>

lemma sendEntry_loop_delivers:
  assumes "distinct wls"
    and "\<forall>c \<in> set wls. \<not> closed (h c) \<and> buf (h c) = [] \<and> cap (h c) = 1"
  shows "\<exists>h'. sendEntry_loop cl ce i wls h = Inr h'
           \<and> map h' wls
               = map (\<lambda>j. \<lparr>buf = [delivered cl ce (i + j)], cap = 1, closed = True\<rparr>)
                   [0..<length wls]
           \<and> (\<forall>c. c \<notin> set wls \<longrightarrow> h' c = h c)"
  using assms
proof (induction wls arbitrary: i h)
  case Nil
  show ?case by simp
next
  case (Cons wl wls)
  let ?m = "delivered cl ce i"
  let ?h1 = "h(wl := (h wl)\<lparr>buf := buf (h wl) @ [?m]\<rparr>)"
  let ?h2 = "?h1(wl := (?h1 wl)\<lparr>closed := True\<rparr>)"
  have pre: "\<not> closed (h wl)" "buf (h wl) = []" "cap (h wl) = 1"
    using Cons.prems(2) by simp_all
  have s1: "chan_send h wl ?m = Inr ?h1"
    using pre by (simp add: chan_send_def)
  have s2: "chan_close ?h1 wl = Inr ?h2"
    using pre by (simp add: chan_close_def)
  have step: "sendEntry_loop cl ce i (wl # wls) h = sendEntry_loop cl ce (i + 1) wls ?h2"
    by (simp add: s1 s2)
  have d: "distinct wls" and nin: "wl \<notin> set wls"
    using Cons.prems(1) by simp_all
  have pre2: "\<forall>c \<in> set wls. \<not> closed (?h2 c) \<and> buf (?h2 c) = [] \<and> cap (?h2 c) = 1"
    using Cons.prems(2) nin by auto
  obtain h' where r: "sendEntry_loop cl ce (i + 1) wls ?h2 = Inr h'"
    and mp: "map h' wls
               = map (\<lambda>j. \<lparr>buf = [delivered cl ce (i + 1 + j)], cap = 1, closed = True\<rparr>)
                   [0..<length wls]"
    and oth: "\<forall>c. c \<notin> set wls \<longrightarrow> h' c = ?h2 c"
    using Cons.IH [OF d pre2, of "i + 1"] by blast
  have hw: "h' wl = \<lparr>buf = [?m], cap = 1, closed = True\<rparr>"
    using oth nin pre by simp
  have up: "map (\<lambda>j. \<lparr>buf = [delivered cl ce (i + j)], cap = 1, closed = True\<rparr>)
              [0..<length (wl # wls)]
            = \<lparr>buf = [?m], cap = 1, closed = True\<rparr>
              # map (\<lambda>j. \<lparr>buf = [delivered cl ce (i + 1 + j)], cap = 1, closed = True\<rparr>)
                  [0..<length wls]"
    by (simp add: upt_conv_Cons map_Suc_upt [symmetric] del: upt_Suc)
  have o2: "\<forall>c. c \<notin> set (wl # wls) \<longrightarrow> h' c = h c"
    using oth by simp
  show ?case
    using step r mp hw up o2 by simp
qed

text \<open>
  C3. Let the waitlist of a key hold \<open>n\<close> distinct channels, each open, empty and of
  capacity 1 (as \<open>registerKey\<close> makes them). Then \<open>sendEntry\<close> completes; the channel
  at position \<open>i\<close> of the waitlist holds exactly one value and is closed; every other
  channel is untouched; the waitlist of the key is empty afterwards. For a loaded entry
  that is non-nil and not negative, the value at position 0 carries the entry's own
  \<open>Value\<close> and the value at every later position carries \<open>CloneValue\<close> of it; for a nil
  or negative entry every position holds a nil entry and no error.
\<close>

theorem sendEntry_delivers:
  assumes "waitlist_of l key = wl" and "distinct wl"
    and "\<forall>c \<in> set wl. \<not> closed (h c) \<and> buf (h c) = [] \<and> cap (h c) = 1"
  shows "\<exists>h'. sendEntry l h key cacheEntry = Inr (l\<lparr>waitlists := (waitlists l)(key \<mapsto> [])\<rparr>, h')
           \<and> map h' wl
               = map (\<lambda>i. \<lparr>buf = [delivered (value_cloner l) cacheEntry i], cap = 1,
                            closed = True\<rparr>) [0..<length wl]
           \<and> (\<forall>c. c \<notin> set wl \<longrightarrow> h' c = h c)
           \<and> waitlist_of (l\<lparr>waitlists := (waitlists l)(key \<mapsto> [])\<rparr>) key = []
           \<and> delivered (value_cloner l) None i = \<lparr>L = None, R = None\<rparr>
           \<and> delivered (value_cloner l) (Some (e\<lparr>NegativeCache := True\<rparr>)) i
               = \<lparr>L = None, R = None\<rparr>
           \<and> delivered (value_cloner l) (Some (e\<lparr>NegativeCache := False\<rparr>)) 0
               = \<lparr>L = None, R = Some (Entry e)\<rparr>
           \<and> delivered (value_cloner l) (Some (e\<lparr>NegativeCache := False\<rparr>)) (Suc i)
               = \<lparr>L = None,
                  R = Some \<lparr>Key = Key (Entry e), Value = value_cloner l (Value (Entry e))\<rparr>\<rparr>"
proof -
  obtain h' where a: "sendEntry_loop (value_cloner l) cacheEntry 0 wl h = Inr h'"
    and b: "map h' wl
               = map (\<lambda>i. \<lparr>buf = [delivered (value_cloner l) cacheEntry (0 + i)], cap = 1,
                            closed = True\<rparr>) [0..<length wl]"
    and c: "\<forall>c. c \<notin> set wl \<longrightarrow> h' c = h c"
    using sendEntry_loop_delivers [OF assms(2,3), of "value_cloner l" cacheEntry 0] by blast
  have s: "sendEntry l h key cacheEntry = Inr (l\<lparr>waitlists := (waitlists l)(key \<mapsto> [])\<rparr>, h')"
    using a assms(1) by (simp add: sendEntry_def)
  have d: "delivered (value_cloner l) None i = \<lparr>L = None, R = None\<rparr>"
       "delivered (value_cloner l) (Some (e\<lparr>NegativeCache := True\<rparr>)) i = \<lparr>L = None, R = None\<rparr>"
       "delivered (value_cloner l) (Some (e\<lparr>NegativeCache := False\<rparr>)) 0
               = \<lparr>L = None, R = Some (Entry e)\<rparr>"
       "delivered (value_cloner l) (Some (e\<lparr>NegativeCache := False\<rparr>)) (Suc i)
               = \<lparr>L = None,
                  R = Some \<lparr>Key = Key (Entry e), Value = value_cloner l (Value (Entry e))\<rparr>\<rparr>"
    by (simp_all add: delivered_def Let_def)
  have w: "waitlist_of (l\<lparr>waitlists := (waitlists l)(key \<mapsto> [])\<rparr>) key = []"
    by (simp add: waitlist_of_def)
  show ?thesis using s b c d w by auto
qed

theorem sendEntry_delivers_witness:
  "waitlist_of three_waiters 1 = [0, 1, 2] \<and> distinct [0, 1, 2 :: nat]
   \<and> map fresh_chans [0, 1, 2] = replicate 3 \<lparr>buf = [], cap = 1, closed = False\<rparr>
   \<and> (\<exists>h'. sendEntry three_waiters fresh_chans 1 (Some loaded_v)
               = Inr (three_waiters\<lparr>waitlists := [1 \<mapsto> []]\<rparr>, h')
          \<and> map h' [0, 1, 2]
               = [\<lparr>buf = [\<lparr>L = None, R = Some \<lparr>Key = 1, Value = ''v''\<rparr>\<rparr>], cap = 1, closed = True\<rparr>,
                  \<lparr>buf = [\<lparr>L = None, R = Some \<lparr>Key = 1, Value = ''v+''\<rparr>\<rparr>], cap = 1, closed = True\<rparr>,
                  \<lparr>buf = [\<lparr>L = None, R = Some \<lparr>Key = 1, Value = ''v+''\<rparr>\<rparr>], cap = 1, closed = True\<rparr>]
          \<and> h' 3 = fresh_chans 3)"
proof -
  have a: "waitlist_of three_waiters 1 = [0, 1, 2]"
    by (simp add: waitlist_of_def three_waiters_def)
  have b: "distinct [0, 1, 2 :: nat]" by simp
  have c: "\<forall>c \<in> set [0, 1, 2 :: nat].
         \<not> closed (fresh_chans c) \<and> buf (fresh_chans c) = [] \<and> cap (fresh_chans c) = 1"
    by (simp add: fresh_chans_def)
  have u: "[0..<length [0, 1, 2 :: nat]] = [0, 1, 2]"
    by (simp add: upt_conv_Cons)
  have f: "map fresh_chans [0, 1, 2] = replicate 3 \<lparr>buf = [], cap = 1, closed = False\<rparr>"
    by (simp add: fresh_chans_def numeral_3_eq_3)
  show ?thesis
    using sendEntry_delivers [OF a b c, where cacheEntry = "Some loaded_v"] a f
    by (auto simp: u delivered_def Let_def loaded_v_def three_waiters_def)
qed


section \<open>Properties of the multi-key lookup of the cache\<close>

lemma filter_upt_Cons:
  "filter (\<lambda>j. (x # xs) ! j = None) [0..<Suc (length xs)]
     = (if x = None then [0] else []) @ map Suc (filter (\<lambda>j. xs ! j = None) [0..<length xs])"
proof -
  have "[0..<Suc (length xs)] = 0 # map Suc [0..<length xs]"
    by (simp add: upt_conv_Cons map_Suc_upt del: upt_Suc)
  then show ?thesis by (simp add: filter_map comp_def del: upt_Suc)
qed

lemma scan_entries_result:
  assumes "i + length ces \<le> length entries"
  shows "\<exists>E. scan_entries ces i entries indexes
              = Inr (E, indexes @ map (\<lambda>j. i + j) (filter (\<lambda>j. ces ! j = None) [0..<length ces]))
           \<and> length E = length entries
           \<and> (\<forall>p < length entries.
                 E ! p = (if i \<le> p \<and> p < i + length ces
                          then (case ces ! (p - i) of
                                  None \<Rightarrow> entries ! p
                                | Some c \<Rightarrow> if NegativeCache c then entries ! p else Some (Entry c))
                          else entries ! p))"
  using assms
proof (induction ces arbitrary: i entries indexes)
  case Nil
  show ?case by auto
next
  case (Cons x ces)
  let ?miss = "\<lambda>xs. filter (\<lambda>j. xs ! j = None) [0..<length xs]"
  have len: "Suc i + length ces \<le> length entries" using Cons.prems by simp
  have ix: "map (\<lambda>j. i + j) (?miss (x # ces))
            = (if x = None then [i] else []) @ map (\<lambda>j. Suc i + j) (?miss ces)"
    using filter_upt_Cons [of x ces] by (simp add: comp_def del: upt_Suc)
  show ?case
  proof (cases x)
    case None
    obtain E where r: "scan_entries ces (Suc i) entries (indexes @ [i])
                = Inr (E, (indexes @ [i]) @ map (\<lambda>j. Suc i + j) (?miss ces))"
      and l: "length E = length entries"
      and v: "\<forall>p < length entries.
                 E ! p = (if Suc i \<le> p \<and> p < Suc i + length ces
                          then (case ces ! (p - Suc i) of
                                  None \<Rightarrow> entries ! p
                                | Some c \<Rightarrow> if NegativeCache c then entries ! p else Some (Entry c))
                          else entries ! p)"
      using Cons.IH [OF len, of "indexes @ [i]"] by blast
    have v': "\<forall>p < length entries.
                 E ! p = (if i \<le> p \<and> p < i + length (x # ces)
                          then (case (x # ces) ! (p - i) of
                                  None \<Rightarrow> entries ! p
                                | Some c \<Rightarrow> if NegativeCache c then entries ! p else Some (Entry c))
                          else entries ! p)"
    proof (intro allI impI)
      fix p assume p: "p < length entries"
      show "E ! p = (if i \<le> p \<and> p < i + length (x # ces)
                          then (case (x # ces) ! (p - i) of
                                  None \<Rightarrow> entries ! p
                                | Some c \<Rightarrow> if NegativeCache c then entries ! p else Some (Entry c))
                          else entries ! p)"
      proof (cases "p = i")
        case True
        then show ?thesis using v p None by simp
      next
        case False
        then have "(x # ces) ! (p - i) = ces ! (p - Suc i)" if "i \<le> p"
          using that by (simp add: nth_Cons')
        then show ?thesis using v p False by auto
      qed
    qed
    show ?thesis
      using r l v' None ix by simp
  next
    case (Some c)
    show ?thesis
    proof (cases "NegativeCache c")
      case True
      obtain E where r: "scan_entries ces (Suc i) entries indexes
                  = Inr (E, indexes @ map (\<lambda>j. Suc i + j) (?miss ces))"
        and l: "length E = length entries"
        and v: "\<forall>p < length entries.
                   E ! p = (if Suc i \<le> p \<and> p < Suc i + length ces
                            then (case ces ! (p - Suc i) of
                                    None \<Rightarrow> entries ! p
                                  | Some c \<Rightarrow> if NegativeCache c then entries ! p else Some (Entry c))
                            else entries ! p)"
        using Cons.IH [OF len, of indexes] by blast
      have v': "\<forall>p < length entries.
                   E ! p = (if i \<le> p \<and> p < i + length (x # ces)
                            then (case (x # ces) ! (p - i) of
                                    None \<Rightarrow> entries ! p
                                  | Some c \<Rightarrow> if NegativeCache c then entries ! p else Some (Entry c))
                            else entries ! p)"
      proof (intro allI impI)
        fix p assume p: "p < length entries"
        show "E ! p = (if i \<le> p \<and> p < i + length (x # ces)
                            then (case (x # ces) ! (p - i) of
                                    None \<Rightarrow> entries ! p
                                  | Some c \<Rightarrow> if NegativeCache c then entries ! p else Some (Entry c))
                            else entries ! p)"
        proof (cases "p = i")
          case True
          then show ?thesis using v p Some \<open>NegativeCache c\<close> by simp
        next
          case False
          then have "(x # ces) ! (p - i) = ces ! (p - Suc i)" if "i \<le> p"
            using that by (simp add: nth_Cons')
          then show ?thesis using v p False by auto
        qed
      qed
      show ?thesis
        using r l v' Some True ix by simp
    next
      case False
      let ?en = "entries[i := Some (Entry c)]"
      have len': "Suc i + length ces \<le> length ?en" using len by simp
      have ilt: "i < length entries" using Cons.prems by simp
      obtain E where r: "scan_entries ces (Suc i) ?en indexes
                  = Inr (E, indexes @ map (\<lambda>j. Suc i + j) (?miss ces))"
        and l: "length E = length ?en"
        and v: "\<forall>p < length ?en.
                   E ! p = (if Suc i \<le> p \<and> p < Suc i + length ces
                            then (case ces ! (p - Suc i) of
                                    None \<Rightarrow> ?en ! p
                                  | Some c \<Rightarrow> if NegativeCache c then ?en ! p else Some (Entry c))
                            else ?en ! p)"
        using Cons.IH [OF len', of indexes] by blast
      have v': "\<forall>p < length entries.
                   E ! p = (if i \<le> p \<and> p < i + length (x # ces)
                            then (case (x # ces) ! (p - i) of
                                    None \<Rightarrow> entries ! p
                                  | Some c \<Rightarrow> if NegativeCache c then entries ! p else Some (Entry c))
                            else entries ! p)"
      proof (intro allI impI)
        fix p assume p: "p < length entries"
        show "E ! p = (if i \<le> p \<and> p < i + length (x # ces)
                            then (case (x # ces) ! (p - i) of
                                    None \<Rightarrow> entries ! p
                                  | Some c \<Rightarrow> if NegativeCache c then entries ! p else Some (Entry c))
                            else entries ! p)"
        proof (cases "p = i")
          case True
          then show ?thesis using v p Some \<open>\<not> NegativeCache c\<close> by simp
        next
          case False
          then have "(x # ces) ! (p - i) = ces ! (p - Suc i)" if "i \<le> p"
            using that by (simp add: nth_Cons')
          moreover have "?en ! p = entries ! p" using False by simp
          ultimately show ?thesis using v p False by (auto split: option.splits)
        qed
      qed
      show ?thesis
        using r l v' Some False ix ilt by simp
    qed
  qed
qed

lemma missing_keys_result:
  "\<forall>j \<in> set js. j < length keys \<Longrightarrow> missing_keys keys js = Inr (map ((!) keys) js)"
  by (induction js) simp_all

lemma splice_loaded_result:
  assumes "distinct js" and "\<forall>j \<in> set js. j < length entries" and "i + length js \<le> length loaded"
  shows "\<exists>E. splice_loaded js i loaded entries = Inr E
           \<and> length E = length entries
           \<and> (\<forall>q < length js. E ! (js ! q) = loaded ! (i + q))
           \<and> (\<forall>p. p \<notin> set js \<longrightarrow> E ! p = entries ! p)"
  using assms
proof (induction js arbitrary: i entries)
  case Nil
  show ?case by simp
next
  case (Cons j js)
  let ?en = "entries[j := loaded ! i]"
  have d: "distinct js" and nin: "j \<notin> set js" using Cons.prems(1) by simp_all
  have b: "\<forall>j \<in> set js. j < length ?en" using Cons.prems(2) by simp
  have c: "Suc i + length js \<le> length loaded" using Cons.prems(3) by simp
  have jl: "j < length entries" and il: "i < length loaded"
    using Cons.prems(2,3) by simp_all
  obtain E where r: "splice_loaded js (Suc i) loaded ?en = Inr E"
    and l: "length E = length ?en"
    and v: "\<forall>q < length js. E ! (js ! q) = loaded ! (Suc i + q)"
    and o: "\<forall>p. p \<notin> set js \<longrightarrow> E ! p = ?en ! p"
    using Cons.IH [OF d b c] by blast
  have ej: "E ! j = loaded ! i" using o nin jl by simp
  have v': "\<forall>q < length (j # js). E ! ((j # js) ! q) = loaded ! (i + q)"
  proof (intro allI impI)
    fix q assume q: "q < length (j # js)"
    show "E ! ((j # js) ! q) = loaded ! (i + q)"
    proof (cases q)
      case 0
      then show ?thesis using ej by simp
    next
      case (Suc q')
      then show ?thesis using v q by simp
    qed
  qed
  have o': "\<forall>p. p \<notin> set (j # js) \<longrightarrow> E ! p = entries ! p"
    using o by simp
  show ?case using r l v' o' jl il by simp
qed

lemma filter_upt_nth:
  assumes "p < n" and "P p"
  shows "length (filter P [0..<p]) < length (filter P [0..<n])"
    and "filter P [0..<n] ! length (filter P [0..<p]) = p"
proof -
  have "[0..<n] = [0..<p] @ p # [Suc p..<n]"
    using assms(1) by (metis le0 less_imp_le_nat upt_add_eq_append upt_conv_Cons le_add_diff_inverse)
  then have f: "filter P [0..<n] = filter P [0..<p] @ p # filter P [Suc p..<n]"
    using assms(2) by simp
  show "length (filter P [0..<p]) < length (filter P [0..<n])"
    by (simp add: f)
  show "filter P [0..<n] ! length (filter P [0..<p]) = p"
    by (simp add: f nth_append)
qed


lemma GetOrLoadMulti_result:
  assumes G: "GetMulti (Storage c) keys s = (Inr ces, s1)"
    and len: "length ces = length keys"
    and L: "filter (\<lambda>j. ces ! j = None) [0..<length keys] \<noteq> [] \<longrightarrow>
              LoadAndStoreMulti (Loader c)
                (map ((!) keys) (filter (\<lambda>j. ces ! j = None) [0..<length keys])) s1
                = (Inr loaded, s2)
              \<and> length loaded = length (filter (\<lambda>j. ces ! j = None) [0..<length keys])"
  shows "GetOrLoadMulti c keys s
       = (Inr (map (\<lambda>i. case ces ! i of
                            Some e \<Rightarrow> if NegativeCache e then None else Some (Entry e)
                          | None \<Rightarrow> loaded ! length (filter (\<lambda>j. ces ! j = None) [0..<i]))
                 [0..<length keys]),
          if filter (\<lambda>j. ces ! j = None) [0..<length keys] = [] then s1 else s2)"
proof -
  let ?P = "\<lambda>j. ces ! j = None"
  let ?miss = "filter ?P [0..<length keys]"
  let ?res = "map (\<lambda>i. case ces ! i of
                            Some e \<Rightarrow> if NegativeCache e then None else Some (Entry e)
                          | None \<Rightarrow> loaded ! length (filter ?P [0..<i]))
                 [0..<length keys]"
  let ?init = "replicate (length keys) (None :: ('a, 'b) Entry option)"
  have "0 + length ces \<le> length ?init" using len by simp
  from scan_entries_result [OF this, of "[]"]
  obtain E where sc: "scan_entries ces 0 ?init [] = Inr (E, ?miss)"
    and lE: "length E = length keys"
    and vE0: "\<forall>p < length keys.
               E ! p = (case ces ! p of
                          None \<Rightarrow> ?init ! p
                        | Some e \<Rightarrow> if NegativeCache e then ?init ! p else Some (Entry e))"
    using len by (auto simp: comp_def)
  have vE: "E ! p = (case ces ! p of
                       None \<Rightarrow> None
                     | Some e \<Rightarrow> if NegativeCache e then None else Some (Entry e))"
    if "p < length keys" for p
    using vE0 that by (auto split: option.splits)
  show ?thesis
  proof (cases "?miss = []")
    case True
    have none: "ces ! p \<noteq> None" if "p < length keys" for p
    proof
      assume "ces ! p = None"
      then have "p \<in> set ?miss" using that by simp
      then show False using True by simp
    qed
    have "E = ?res"
    proof (rule nth_equalityI)
      show "length E = length ?res" using lE by simp
    next
      fix p assume "p < length E"
      then have p: "p < length keys" using lE by simp
      then show "E ! p = ?res ! p"
        using vE none [OF p] by (auto split: option.splits)
    qed
    then show ?thesis
      using G sc True by (simp add: GetOrLoadMulti_def)
  next
    case False
    have ld: "LoadAndStoreMulti (Loader c) (map ((!) keys) ?miss) s1 = (Inr loaded, s2)"
      and ll: "length loaded = length ?miss"
      using L False by simp_all
    have mk: "missing_keys keys ?miss = Inr (map ((!) keys) ?miss)"
      by (rule missing_keys_result) simp
    have "distinct ?miss" by simp
    moreover have "\<forall>j \<in> set ?miss. j < length E" using lE by simp
    moreover have "0 + length ?miss \<le> length loaded" using ll by simp
    ultimately obtain R where sp: "splice_loaded ?miss 0 loaded E = Inr R"
      and lR: "length R = length E"
      and vR: "\<forall>q < length ?miss. R ! (?miss ! q) = loaded ! (0 + q)"
      and oR: "\<forall>p. p \<notin> set ?miss \<longrightarrow> R ! p = E ! p"
      using splice_loaded_result [of ?miss E 0 loaded] by blast
    have "R = ?res"
    proof (rule nth_equalityI)
      show "length R = length ?res" using lR lE by simp
    next
      fix p assume "p < length R"
      then have p: "p < length keys" using lR lE by simp
      show "R ! p = ?res ! p"
      proof (cases "ces ! p")
        case None
        have q: "length (filter ?P [0..<p]) < length ?miss"
          and n: "?miss ! length (filter ?P [0..<p]) = p"
          using filter_upt_nth [of p "length keys" ?P] p None by simp_all
        have "R ! p = loaded ! length (filter ?P [0..<p])"
          using vR q n by (metis add_0)
        then show ?thesis using p None by simp
      next
        case (Some e)
        then have "p \<notin> set ?miss" by simp
        then have "R ! p = E ! p" using oR by simp
        then show ?thesis using vE p Some by simp
      qed
    qed
    then show ?thesis
      using G sc False mk ld sp by (simp add: GetOrLoadMulti_def)
  qed
qed

text \<open>
  C4. When the storage answers \<open>GetMulti\<close> with one slot per key,
  \<open>GetOrLoadMulti\<close> returns a list of length \<open>len(keys)\<close> aligned to the
  input: a position whose lookup hit a non-negative entry carries that entry, a
  position that hit a negative entry carries nil, and a missed position carries the
  result the loader gave for it. The loader's \<open>LoadAndStoreMulti\<close> is invoked
  exactly once, with the sub-list of missed keys in input order, and not at all when
  there are no misses; its results (one per missed key) are spliced back in order.
\<close>

theorem GetOrLoadMulti_aligned:
  assumes G: "GetMulti (Storage cl) keys s = (Inr ces, s1)"
    and len: "length ces = length keys"
    and L: "filter (\<lambda>j. ces ! j = None) [0..<length keys] \<noteq> [] \<longrightarrow>
              LoadAndStoreMulti (Loader cl)
                (map ((!) keys) (filter (\<lambda>j. ces ! j = None) [0..<length keys])) s1
                = (Inr loaded, s2)
              \<and> length loaded = length (filter (\<lambda>j. ces ! j = None) [0..<length keys])"
  shows "GetOrLoadMulti (with_trace cl) keys (s, [])
       = (Inr (map (\<lambda>i. case ces ! i of
                            Some e \<Rightarrow> if NegativeCache e then None else Some (Entry e)
                          | None \<Rightarrow> loaded ! length (filter (\<lambda>j. ces ! j = None) [0..<i]))
                 [0..<length keys]),
          if filter (\<lambda>j. ces ! j = None) [0..<length keys] = [] then (s1, [])
          else (s2, [CallLoadAndStoreMulti
                       (map ((!) keys) (filter (\<lambda>j. ces ! j = None) [0..<length keys]))]))
     \<and> length (map (\<lambda>i. case ces ! i of
                            Some e \<Rightarrow> if NegativeCache e then None else Some (Entry e)
                          | None \<Rightarrow> loaded ! length (filter (\<lambda>j. ces ! j = None) [0..<i]))
                 [0..<length keys]) = length keys"
proof -
  let ?miss = "filter (\<lambda>j. ces ! j = None) [0..<length keys]"
  have G': "GetMulti (Storage (with_trace cl)) keys (s, []) = (Inr ces, (s1, []))"
    using G by (simp add: with_trace_def untraced_def)
  have L': "?miss \<noteq> [] \<longrightarrow>
              LoadAndStoreMulti (Loader (with_trace cl)) (map ((!) keys) ?miss) (s1, [])
                = (Inr loaded, (s2, [CallLoadAndStoreMulti (map ((!) keys) ?miss)]))
              \<and> length loaded = length ?miss"
    using L by (simp add: with_trace_def traced_def)
  show ?thesis
    using GetOrLoadMulti_result [OF G' len L'] by simp
qed

theorem GetOrLoadMulti_aligned_witness:
  "GetMulti (Storage partial_cache) [3, 1, 2, 4, 5] 0
     = (Inr [None, Some hit_entry, Some absent_entry, None, None], 0)
   \<and> LoadAndStoreMulti (Loader partial_cache) [3, 4, 5] 0
     = (Inr [Some \<lparr>Key = 3, Value = ''b''\<rparr>, None, Some \<lparr>Key = 5, Value = ''b''\<rparr>], 1)
   \<and> GetOrLoadMulti (with_trace partial_cache) [3, 1, 2, 4, 5] (0, [])
     = (Inr [Some \<lparr>Key = 3, Value = ''b''\<rparr>, Some \<lparr>Key = 1, Value = ''a''\<rparr>, None, None,
             Some \<lparr>Key = 5, Value = ''b''\<rparr>],
        (1, [CallLoadAndStoreMulti [3, 4, 5]]))"
proof -
  have u: "[0..<5] = [0, 1, 2, 3, 4]" "[0..<4] = [0, 1, 2, 3]" "[0..<3] = [0, 1, 2]"
    "[0..<2] = [0, 1]" "[0..<1] = [0]"
    by (simp_all add: upt_conv_Cons)
  have g: "GetMulti (Storage partial_cache) [3, 1, 2, 4, 5] 0
     = (Inr [None, Some hit_entry, Some absent_entry, None, None], 0)"
    by (simp add: partial_cache_def)
  have m: "filter (\<lambda>j. [None, Some hit_entry, Some absent_entry, None, None] ! j = None)
             [0..<length [3 :: nat, 1, 2, 4, 5]] = [0, 3, 4]"
    by (simp add: u)
  have l: "LoadAndStoreMulti (Loader partial_cache) [3, 4, 5] 0
     = (Inr [Some \<lparr>Key = 3, Value = ''b''\<rparr>, None, Some \<lparr>Key = 5, Value = ''b''\<rparr>], 1)"
    by (simp add: partial_cache_def)
  show ?thesis
    using GetOrLoadMulti_aligned [of partial_cache "[3, 1, 2, 4, 5]" 0
        "[None, Some hit_entry, Some absent_entry, None, None]" 0
        "[Some \<lparr>Key = 3, Value = ''b''\<rparr>, None, Some \<lparr>Key = 5, Value = ''b''\<rparr>]" 1]
      g l
    by (simp add: m u hit_entry_def absent_entry_def)
qed


end
